theory Spec2Isabelle
  imports Main "HOL-Library.Sublist"
begin

section \<open>Text and character classes\<close>

text \<open>
  A Python \<open>str\<close> is a sequence of Unicode code points; a code point is a natural number.
  String literals of the script are ASCII and are written with \<open>cp\<close>.
\<close>

type_synonym str = "nat list"

definition cp :: "string \<Rightarrow> str" where
  "cp s = map of_char s"

text \<open>
  The classes \<open>\w\<close>, \<open>\s\<close> and \<open>\d\<close> of a \<open>str\<close> pattern are Unicode classes. Below
  code point 128 they are fixed; above, they are given by the Unicode database of the
  interpreter, which is a parameter of the model.
\<close>

record unicode =
  u_alnum :: "nat \<Rightarrow> bool"
  u_space :: "nat \<Rightarrow> bool"
  u_decimal :: "nat \<Rightarrow> bool"

definition is_word :: "unicode \<Rightarrow> nat \<Rightarrow> bool" where
  "is_word U c = (if c < 128
     then (48 \<le> c \<and> c \<le> 57) \<or> (65 \<le> c \<and> c \<le> 90) \<or> (97 \<le> c \<and> c \<le> 122) \<or> c = 95
     else u_alnum U c)"

definition is_space :: "unicode \<Rightarrow> nat \<Rightarrow> bool" where
  "is_space U c = (if c < 128
     then (9 \<le> c \<and> c \<le> 13) \<or> (28 \<le> c \<and> c \<le> 32)
     else u_space U c)"

definition is_digit :: "unicode \<Rightarrow> nat \<Rightarrow> bool" where
  "is_digit U c = (if c < 128 then 48 \<le> c \<and> c \<le> 57 else u_decimal U c)"

text \<open>
  For the evaluation of the script on ASCII texts: a database in which no code point
  from 128 on is alphanumeric, white space or a decimal digit. On an ASCII text the
  result of the script does not depend on the database.
\<close>

definition ascii_tables :: unicode where
  "ascii_tables = \<lparr>u_alnum = (\<lambda>c. False), u_space = (\<lambda>c. False), u_decimal = (\<lambda>c. False)\<rparr>"

section \<open>The fragment of Python's \<open>re\<close> that the script uses\<close>

text \<open>
  Every pattern of the script is a sequence of items: literal text, an alternation of
  literals, a character class repeated greedily or lazily, one character of a class, an
  optional character, or a backreference. The matcher is the backtracking search of
  \<open>re\<close>: the items are matched left to right, the choices of an item are tried in the
  order of their priority, and the first complete match wins. It returns the piece of
  text that each item matched; the pieces so far are passed along for the
  backreference.
\<close>

datatype item =
    Lit str
  | Alt "str list"
  | Rep "nat \<Rightarrow> bool" nat bool
  | One "nat \<Rightarrow> bool"
  | Opt nat
  | Back nat

fun first_some :: "('a \<Rightarrow> 'b option) \<Rightarrow> 'a list \<Rightarrow> 'b option" where
  "first_some f [] = None"
| "first_some f (x # xs) = (case f x of Some y \<Rightarrow> Some y | None \<Rightarrow> first_some f xs)"

definition counts :: "(nat \<Rightarrow> bool) \<Rightarrow> nat \<Rightarrow> bool \<Rightarrow> str \<Rightarrow> nat list" where
  "counts cls lo greedy s =
     (let hi = length (takeWhile cls s)
      in if greedy then rev [lo ..< Suc hi] else [lo ..< Suc hi])"

fun match_here :: "item list \<Rightarrow> str list \<Rightarrow> str \<Rightarrow> str list option" where
  "match_here [] done s = Some done"
| "match_here (Lit l # its) done s =
     (if take (length l) s = l then match_here its (done @ [l]) (drop (length l) s) else None)"
| "match_here (Alt ls # its) done s =
     first_some (\<lambda>l. if take (length l) s = l
                      then match_here its (done @ [l]) (drop (length l) s) else None) ls"
| "match_here (Rep cls lo greedy # its) done s =
     first_some (\<lambda>n. match_here its (done @ [take n s]) (drop n s)) (counts cls lo greedy s)"
| "match_here (One cls # its) done s =
     (case s of [] \<Rightarrow> None
      | c # cs \<Rightarrow> if cls c then match_here its (done @ [[c]]) cs else None)"
| "match_here (Opt c # its) done s =
     (case (if take 1 s = [c] then match_here its (done @ [[c]]) (drop 1 s) else None) of
        Some r \<Rightarrow> Some r
      | None \<Rightarrow> match_here its (done @ [[]]) s)"
| "match_here (Back k # its) done s =
     (if k < length done
      then let g = done ! k
           in if take (length g) s = g then match_here its (done @ [g]) (drop (length g) s)
              else None
      else None)"

definition re_match :: "item list \<Rightarrow> str \<Rightarrow> str list option" where
  "re_match p s = match_here p [] s"

text \<open>
  \<open>re.sub\<close>: the text is scanned from the left; where the pattern matches, the
  replacement is emitted and the scan goes on behind the match; elsewhere the character
  is copied. After an empty match the next character is copied.
\<close>

function re_sub :: "item list \<Rightarrow> (str list \<Rightarrow> str) \<Rightarrow> str \<Rightarrow> str" where
  "re_sub p f [] = (case re_match p [] of None \<Rightarrow> [] | Some ps \<Rightarrow> f ps)"
| "re_sub p f (c # cs) =
     (case re_match p (c # cs) of
        None \<Rightarrow> c # re_sub p f cs
      | Some ps \<Rightarrow>
          (if concat ps = [] then f ps @ c # re_sub p f cs
           else f ps @ re_sub p f (drop (length (concat ps)) (c # cs))))"
  by pat_completeness auto
termination
  by (relation "measure (\<lambda>(p, f, s). length s)") auto

section \<open>The transformations\<close>

subsection \<open>\<open>fix_check_admin_access\<close>\<close>

text \<open>
  The pattern of \<open>fix_check_admin_access\<close>, item by item. Its only group, around the
  items 0 to 7, is never read: the replacer uses \<open>match.group(0)\<close>. The flag
  \<open>re.DOTALL\<close> changes the meaning of an unescaped dot only, and the pattern has
  none.
\<close>

definition admin_pattern :: "unicode \<Rightarrow> item list" where
  "admin_pattern U =
    [Lit (cp ''async function checkAdminAccess(''),
     Rep (\<lambda>c. c \<noteq> 41) 1 True,
     Lit (cp ''): Promise<boolean> {''),
     Rep (\<lambda>c. c \<noteq> 125) 0 False,
     Lit (cp ''const ''),
     Alt [cp ''firestore'', cp ''firestoreDb''],
     Lit (cp '' = getFirebaseFirestore();''),
     Rep (\<lambda>c. c \<noteq> 125) 0 False,
     Lit (cp ''if (!''),
     Alt [cp ''firestore'', cp ''firestoreDb''],
     Lit (cp '') {''),
     Rep (is_space U) 0 True,
     Lit (cp ''return NextResponse.json(''),
     Rep (\<lambda>c. c \<noteq> 125) 1 True,
     Lit (cp ''}, { status: ''),
     Rep (is_digit U) 1 True,
     Lit (cp '' })''),
     Opt 59,
     Rep (is_space U) 0 True,
     Lit (cp ''}'')]"

text \<open>
  The pattern of the replacer: group 1 is item 1 (one quote character, code point 39 or
  34), group 2 is item 2, and \<open>\1\<close> is \<open>Back 1\<close>.
\<close>

definition response_pattern :: "unicode \<Rightarrow> item list" where
  "response_pattern U =
    [Lit (cp ''return NextResponse.json({ error: ''),
     One (\<lambda>c. c = 39 \<or> c = 34),
     Rep (\<lambda>c. c \<noteq> 39 \<and> c \<noteq> 34) 1 True,
     Back 1,
     Lit (cp '' }, { status: ''),
     Rep (is_digit U) 1 True,
     Lit (cp '' })'')]"

definition throw_template :: "str list \<Rightarrow> str" where
  "throw_template ps = cp ''throw new Error('' @ ps ! 1 @ ps ! 2 @ ps ! 1 @ cp '')''"

definition replacer :: "unicode \<Rightarrow> str list \<Rightarrow> str" where
  "replacer U ps =
     (let original = concat ps;
          replaced = re_sub (response_pattern U) throw_template original
      in replaced)"

definition fix_check_admin_access :: "unicode \<Rightarrow> str \<Rightarrow> str" where
  "fix_check_admin_access U content = re_sub (admin_pattern U) (replacer U) content"

subsection \<open>\<open>fix_implicit_any_params\<close>\<close>

definition callback_pattern :: "unicode \<Rightarrow> string \<Rightarrow> item list" where
  "callback_pattern U m = [Lit (cp m), Rep (is_word U) 1 True, Lit (cp '') =>'')]"

definition callback_template :: "string \<Rightarrow> str list \<Rightarrow> str" where
  "callback_template m ps = cp m @ ps ! 1 @ cp '': any) =>''"

definition methods :: "string list" where
  "methods = [''.forEach(('', ''.map(('', ''.filter(('', ''.find(('', ''.some(('', ''.every((''] "

definition patterns :: "unicode \<Rightarrow> (item list \<times> (str list \<Rightarrow> str)) list" where
  "patterns U = map (\<lambda>m. (callback_pattern U m, callback_template m)) methods"

definition fix_implicit_any_params :: "unicode \<Rightarrow> str \<Rightarrow> str" where
  "fix_implicit_any_params U content =
     foldl (\<lambda>content (pattern, replacement). re_sub pattern replacement content)
       content (patterns U)"

subsection \<open>\<open>fix_firestore_references\<close>\<close>

fun split_on :: "nat \<Rightarrow> str \<Rightarrow> str list" where
  "split_on d [] = [[]]"
| "split_on d (c # cs) =
     (if c = d then [] # split_on d cs
      else (case split_on d cs of [] \<Rightarrow> [[c]] | l # ls \<Rightarrow> (c # l) # ls))"

fun join :: "str \<Rightarrow> str list \<Rightarrow> str" where
  "join d [] = []"
| "join d [l] = l"
| "join d (l # ls) = l @ d @ join d ls"

fun is_in :: "str \<Rightarrow> str \<Rightarrow> bool" where
  "is_in x [] = (x = [])"
| "is_in x (c # cs) = (take (length x) (c # cs) = x \<or> is_in x cs)"

function str_replace :: "str \<Rightarrow> str \<Rightarrow> str \<Rightarrow> str" where
  "str_replace old new [] = (if old = [] then new else [])"
| "str_replace old new (c # cs) =
     (if old = [] then new @ c # str_replace old new cs
      else if take (length old) (c # cs) = old
           then new @ str_replace old new (drop (length old) (c # cs))
           else c # str_replace old new cs)"
  by pat_completeness auto
termination
  by (relation "measure (\<lambda>(old, new, s). length s)") auto

definition lstrip :: "unicode \<Rightarrow> str \<Rightarrow> str" where
  "lstrip U s = dropWhile (is_space U) s"

definition has_null_check :: "str list \<Rightarrow> nat \<Rightarrow> bool" where
  "has_null_check lines i =
     list_ex (\<lambda>j. is_in (cp ''const firestoreDb = getFirebaseFirestore()'') (lines ! j))
       [i - 10 ..< i]"

definition uses_firestore :: "str list \<Rightarrow> nat \<Rightarrow> bool" where
  "uses_firestore lines i =
     (let line = lines ! i
      in is_in (cp ''collection(firestore,'') line \<or>
         is_in (cp ''doc(firestore,'') line \<or>
         (is_in (cp ''query('') line \<and> Suc i < length lines \<and>
          is_in (cp ''collection(firestore'') (lines ! Suc i)))"

function firestore_loop :: "unicode \<Rightarrow> str list \<Rightarrow> nat \<Rightarrow> str list \<Rightarrow> str list" where
  "firestore_loop U lines i result_lines =
     (if i < length lines
      then let line = lines ! i
           in if uses_firestore lines i
              then let indent = length line - length (lstrip U line);
                       guard = (if has_null_check lines i then []
                                else [replicate indent 32 @
                                        cp ''const firestoreDb = getFirebaseFirestore();'',
                                      replicate indent 32 @
                                        cp ''if (!firestoreDb) throw new Error('Database not configured');'',
                                      []]);
                       line1 = str_replace (cp ''collection(firestore,'')
                                 (cp ''collection(firestoreDb,'') line;
                       line2 = str_replace (cp ''doc(firestore,'') (cp ''doc(firestoreDb,'') line1
                   in firestore_loop U lines (Suc i) (result_lines @ guard @ [line2])
              else firestore_loop U lines (Suc i) (result_lines @ [line])
      else result_lines)"
  by pat_completeness auto
termination
  by (relation "measure (\<lambda>(U, lines, i, r). length lines - i)") auto

definition fix_firestore_references :: "unicode \<Rightarrow> str \<Rightarrow> str" where
  "fix_firestore_references U content =
     join [10] (firestore_loop U (split_on 10 content) 0 [])"

section \<open>Files\<close>

text \<open>
  The file system maps a path to a directory or a file. A file has the text that a read
  with encoding UTF-8 decodes from its bytes (\<open>None\<close> when they are no valid UTF-8), its
  permissions, and the fault of its device: with \<open>Some n\<close> the device fails once \<open>n\<close>
  code points of a write have reached the file. Opening a file for writing truncates it,
  so a write that fails leaves the first \<open>n\<close> code points of the new text.
\<close>

datatype error = FileNotFoundError | IsADirectoryError | PermissionError
  | UnicodeDecodeError | UnicodeEncodeError | OSError

record file_state =
  decoded :: "str option"
  may_read :: bool
  may_write :: bool
  write_fault :: "nat option"

datatype node = Dir | File file_state

type_synonym fs = "str \<Rightarrow> node option"

definition read_text :: "fs \<Rightarrow> str \<Rightarrow> error + str" where
  "read_text fs path =
     (case fs path of
        None \<Rightarrow> Inl FileNotFoundError
      | Some Dir \<Rightarrow> Inl IsADirectoryError
      | Some (File f) \<Rightarrow>
          if \<not> may_read f then Inl PermissionError
          else (case decoded f of None \<Rightarrow> Inl UnicodeDecodeError | Some t \<Rightarrow> Inr t))"

definition write_text :: "fs \<Rightarrow> str \<Rightarrow> str \<Rightarrow> fs \<times> error option" where
  "write_text fs path t =
     (case fs path of
        None \<Rightarrow>
          (fs(path \<mapsto> File \<lparr>decoded = Some t, may_read = True, may_write = True,
                                write_fault = None\<rparr>), None)
      | Some Dir \<Rightarrow> (fs, Some IsADirectoryError)
      | Some (File f) \<Rightarrow>
          if \<not> may_write f then (fs, Some PermissionError)
          else (case write_fault f of
                  None \<Rightarrow> (fs(path \<mapsto> File (f\<lparr>decoded := Some t\<rparr>)), None)
                | Some n \<Rightarrow>
                    if n < length t
                    then (fs(path \<mapsto> File (f\<lparr>decoded := Some (take n t)\<rparr>)), Some OSError)
                    else (fs(path \<mapsto> File (f\<lparr>decoded := Some t\<rparr>)), None)))"

section \<open>\<open>process_file\<close> and \<open>main\<close>\<close>

datatype printed = ErrorLine str error | FixedLine str | Summary nat nat

text \<open>
  Standard output is part of the environment: a console tells for every line whether
  \<open>print\<close> writes it (\<open>None\<close>) or raises an exception (for instance
  \<open>UnicodeEncodeError\<close>, when the encoding of standard output has no bytes for a
  code point of the line).
\<close>

type_synonym console = "printed \<Rightarrow> error option"

text \<open>
  \<open>apply_fixes\<close> is the block of \<open>process_file\<close> under the comment "Apply fixes": the
  two assignments to \<open>content\<close>. \<open>process_body\<close> is the body of the \<open>try\<close> block: it
  returns the file system it leaves and either the exception it raised or its return
  value.
\<close>

definition apply_fixes :: "unicode \<Rightarrow> str \<Rightarrow> str" where
  "apply_fixes U content0 =
     (let content1 = fix_check_admin_access U content0;
          content2 = fix_implicit_any_params U content1
      in content2)"

definition process_body :: "unicode \<Rightarrow> fs \<Rightarrow> str \<Rightarrow> fs \<times> (error + bool)" where
  "process_body U fs file_path =
     (case read_text fs file_path of
        Inl e \<Rightarrow> (fs, Inl e)
      | Inr original_content \<Rightarrow>
          let content = apply_fixes U original_content
          in if content \<noteq> original_content
             then (case write_text fs file_path content of
                     (fs', Some e) \<Rightarrow> (fs', Inl e)
                   | (fs', None) \<Rightarrow> (fs', Inr True))
             else (fs, Inr False))"

text \<open>
  \<open>process_file\<close> is the \<open>try\<close> statement: the handler prints the error line and returns
  \<open>False\<close>. The \<open>print\<close> of the handler is not guarded: when it raises, the exception
  leaves \<open>process_file\<close> (\<open>Inl\<close>).
\<close>

definition process_file ::
  "unicode \<Rightarrow> console \<Rightarrow> fs \<Rightarrow> str \<Rightarrow> fs \<times> printed list \<times> (error + bool)" where
  "process_file U con fs file_path =
     (case process_body U fs file_path of
        (fs', Inr r) \<Rightarrow> (fs', [], Inr r)
      | (fs', Inl e) \<Rightarrow>
          (case con (ErrorLine file_path e) of
             None \<Rightarrow> (fs', [ErrorLine file_path e], Inr False)
           | Some e' \<Rightarrow> (fs', [], Inl e')))"

definition endswith :: "str \<Rightarrow> str \<Rightarrow> bool" where
  "endswith s x = (length x \<le> length s \<and> drop (length s - length x) s = x)"

text \<open>
  \<open>listing\<close> is what a recursive walk below the directory of the script yields, in its
  order; \<open>rglob\<close> keeps the paths whose last component matches.
\<close>

definition rglob :: "str list \<Rightarrow> str \<Rightarrow> str list" where
  "rglob listing ext = filter (\<lambda>f. endswith f ext) listing"

definition discover :: "str list \<Rightarrow> str list" where
  "discover listing =
     (let ts_files = rglob listing (cp ''.ts'') @ rglob listing (cp ''.tsx'')
      in filter (\<lambda>f. is_in (cp ''src'') f \<and> \<not> is_in (cp ''node_modules'') f) ts_files)"

text \<open>
  The loop of \<open>main\<close>. An exception that leaves \<open>process_file\<close>, or that the \<open>print\<close> of
  the line "Fixed: ..." raises, ends the loop and the run (\<open>Inl\<close>); the files behind it
  are not processed.
\<close>

fun main_loop ::
  "unicode \<Rightarrow> console \<Rightarrow> str list \<Rightarrow> fs \<times> printed list \<times> nat \<Rightarrow>
   fs \<times> printed list \<times> (error + nat)" where
  "main_loop U con [] (fs, out, changed_count) = (fs, out, Inr changed_count)"
| "main_loop U con (file_path # rest) (fs, out, changed_count) =
     (case process_file U con fs file_path of
        (fs', lines, Inl e) \<Rightarrow> (fs', out @ lines, Inl e)
      | (fs', lines, Inr True) \<Rightarrow>
          (case con (FixedLine file_path) of
             None \<Rightarrow>
               main_loop U con rest
                 (fs', out @ lines @ [FixedLine file_path], changed_count + 1)
           | Some e \<Rightarrow> (fs', out @ lines, Inl e))
      | (fs', lines, Inr False) \<Rightarrow> main_loop U con rest (fs', out @ lines, changed_count))"

text \<open>
  \<open>main\<close> returns the file system, the lines printed, and the exception that ended the
  run, if any (\<open>None\<close> is the exit with code 0).
\<close>

definition main :: "unicode \<Rightarrow> console \<Rightarrow> str list \<Rightarrow> fs \<Rightarrow> fs \<times> printed list \<times> error option" where
  "main U con listing fs =
     (let ts_files = discover listing
      in case main_loop U con ts_files (fs, [], 0) of
           (fs', out, Inl e) \<Rightarrow> (fs', out, Some e)
         | (fs', out, Inr changed_count) \<Rightarrow>
             (case con (Summary (length ts_files) changed_count) of
                None \<Rightarrow> (fs', out @ [Summary (length ts_files) changed_count], None)
              | Some e \<Rightarrow> (fs', out, Some e)))"

section \<open>Predicates of the statements and sample files\<close>

text \<open>
  \<open>nowhere p s\<close>: the pattern matches at no position of the text, the end included.
\<close>

fun nowhere :: "item list \<Rightarrow> str \<Rightarrow> bool" where
  "nowhere p [] = (re_match p [] = None)"
| "nowhere p (c # cs) = (re_match p (c # cs) = None \<and> nowhere p cs)"

definition plain_file :: "str \<Rightarrow> node" where
  "plain_file t =
     File \<lparr>decoded = Some t, may_read = True, may_write = True, write_fault = None\<rparr>"

definition read_only_file :: "str \<Rightarrow> node" where
  "read_only_file t =
     File \<lparr>decoded = Some t, may_read = True, may_write = False, write_fault = None\<rparr>"

definition binary_file :: node where
  "binary_file =
     File \<lparr>decoded = None, may_read = True, may_write = True, write_fault = None\<rparr>"

text \<open>
  A standard output with encoding UTF-8 and strict error handling. The path of a file
  whose name has a byte outside UTF-8 holds a surrogate code point, which UTF-8 does
  not encode: the \<open>print\<close> of a line with such a path raises. The other parts of the
  lines are ASCII.
\<close>

definition is_surrogate :: "nat \<Rightarrow> bool" where
  "is_surrogate c = (55296 \<le> c \<and> c \<le> 57343)"

definition utf8_console :: console where
  "utf8_console line =
     (case line of
        ErrorLine path e \<Rightarrow> if list_ex is_surrogate path then Some UnicodeEncodeError else None
      | FixedLine path \<Rightarrow> if list_ex is_surrogate path then Some UnicodeEncodeError else None
      | Summary n k \<Rightarrow> None)"

section \<open>What the rewrite of a response statement keeps\<close>

text \<open>
  \<open>throws_for U xs ys\<close>: the text \<open>ys\<close> is the text \<open>xs\<close> in which some statements
  \<open>return NextResponse.json({ error: q msg q }, { status: d })\<close>, with \<open>q\<close> a quote
  character, \<open>msg\<close> free of quote characters and \<open>d\<close> digits, are replaced by
  \<open>throw new Error(q msg q)\<close> with the same quote and the same message; every other
  character is kept.
\<close>

inductive throws_for :: "unicode \<Rightarrow> str \<Rightarrow> str \<Rightarrow> bool" for U where
  throws_nil: "throws_for U [] []"
| throws_copy: "throws_for U xs ys \<Longrightarrow> throws_for U (c # xs) (c # ys)"
| throws_stmt:
    "throws_for U xs ys \<Longrightarrow> q = 39 \<or> q = 34 \<Longrightarrow> msg \<noteq> [] \<Longrightarrow>
     list_all (\<lambda>c. c \<noteq> 39 \<and> c \<noteq> 34) msg \<Longrightarrow> d \<noteq> [] \<Longrightarrow> list_all (is_digit U) d \<Longrightarrow>
     throws_for U
       (cp ''return NextResponse.json({ error: '' @ [q] @ msg @ [q] @
          cp '' }, { status: '' @ d @ cp '' })'' @ xs)
       (cp ''throw new Error('' @ [q] @ msg @ [q] @ cp '')'' @ ys)"

text \<open>
  \<open>nowhere_before p a r\<close>: in the text \<open>a @ r\<close> the pattern matches at no position
  inside \<open>a\<close>.
\<close>

fun nowhere_before :: "item list \<Rightarrow> str \<Rightarrow> str \<Rightarrow> bool" where
  "nowhere_before p [] r = True"
| "nowhere_before p (c # cs) r = (re_match p (c # cs @ r) = None \<and> nowhere_before p cs r)"

text \<open>
  \<open>throw_edits U xs ys\<close>: the text \<open>ys\<close> is the text \<open>xs\<close> in which some openings
  \<open>return NextResponse.json({ error: q\<close> of a response statement are replaced by
  \<open>throw new Error(q\<close> and some endings \<open>q }, { status: d })\<close> by \<open>q)\<close>; every other
  character is kept. It relates the two sides of a place in a text to what
  \<open>fix_check_admin_access\<close> makes of them, also when the place lies inside the message of
  a statement that is rewritten.
\<close>

inductive throw_edits :: "unicode \<Rightarrow> str \<Rightarrow> str \<Rightarrow> bool" for U where
  edits_nil: "throw_edits U [] []"
| edits_copy: "throw_edits U xs ys \<Longrightarrow> throw_edits U (c # xs) (c # ys)"
| edits_head:
    "throw_edits U xs ys \<Longrightarrow> q = 39 \<or> q = 34 \<Longrightarrow>
     throw_edits U (cp ''return NextResponse.json({ error: '' @ [q] @ xs)
       (cp ''throw new Error('' @ [q] @ ys)"
| edits_tail:
    "throw_edits U xs ys \<Longrightarrow> q = 39 \<or> q = 34 \<Longrightarrow> d \<noteq> [] \<Longrightarrow> list_all (is_digit U) d \<Longrightarrow>
     throw_edits U ([q] @ cp '' }, { status: '' @ d @ cp '' })'' @ xs) ([q] @ cp '')'' @ ys)"

section \<open>Evaluation\<close>

lemmas eval_defs =
  fix_check_admin_access_def admin_pattern_def response_pattern_def replacer_def
  throw_template_def fix_implicit_any_params_def patterns_def methods_def
  callback_pattern_def callback_template_def cp_def re_match_def counts_def
  is_word_def is_space_def is_digit_def ascii_tables_def Let_def

lemma map_example:
  "apply_fixes ascii_tables (cp ''a.map((x) => x)'') = cp ''a.map((x: any) => x)''"
  by (simp add: apply_fixes_def eval_defs)

lemma map_example_changed: "cp ''a.map((x: any) => x)'' \<noteq> cp ''a.map((x) => x)''"
  by (simp add: cp_def)

lemma sample_paths_differ: "cp ''src/a.ts'' \<noteq> cp ''src/b.ts''"
  by (simp add: cp_def)

section \<open>Texts without a match\<close>

lemma re_sub_nowhere: "nowhere p s \<Longrightarrow> re_sub p f s = s"
  by (induction s) auto

lemma foldl_re_sub_id:
  "(\<And>p f. (p, f) \<in> set ps \<Longrightarrow> re_sub p f t = t) \<Longrightarrow>
   foldl (\<lambda>content (pattern, replacement). re_sub pattern replacement content) t ps = t"
  by (induction ps) auto

text \<open>
  C7. A text in which neither the pattern of \<open>fix_check_admin_access\<close> nor any of the six
  callback patterns matches at any position comes out of the two fixes of
  \<open>process_file\<close> exactly as it went in.
\<close>

theorem apply_fixes_no_match_identity:
  assumes "nowhere (admin_pattern U) t"
    and "list_all (\<lambda>m. nowhere (callback_pattern U m) t) methods"
  shows "apply_fixes U t = t"
proof -
  have a: "fix_check_admin_access U t = t"
    using assms(1) by (simp add: fix_check_admin_access_def re_sub_nowhere)
  have b: "fix_implicit_any_params U t = t"
    unfolding fix_implicit_any_params_def
    by (rule foldl_re_sub_id)
      (use assms(2) in \<open>auto simp: patterns_def re_sub_nowhere list_all_iff\<close>)
  show ?thesis by (simp add: apply_fixes_def a b)
qed

theorem apply_fixes_no_match_identity_witness:
  "nowhere (admin_pattern ascii_tables) (cp ''const n = xs.map(f);'') \<and>
   list_all (\<lambda>m. nowhere (callback_pattern ascii_tables m) (cp ''const n = xs.map(f);''))
     methods \<and>
   apply_fixes ascii_tables (cp ''const n = xs.map(f);'') = cp ''const n = xs.map(f);''"
proof -
  have h1: "nowhere (admin_pattern ascii_tables) (cp ''const n = xs.map(f);'')"
    by (simp add: eval_defs)
  have h2: "list_all (\<lambda>m. nowhere (callback_pattern ascii_tables m)
      (cp ''const n = xs.map(f);'')) methods"
    by (simp add: eval_defs)
  from apply_fixes_no_match_identity [OF h1 h2] h1 h2 show ?thesis by blast
qed

section \<open>The order of the fixes\<close>

lemma firestore_example:
  "fix_firestore_references ascii_tables (cp ''doc(firestore, id)'') =
   cp ''const firestoreDb = getFirebaseFirestore();'' @ [10] @
   cp ''if (!firestoreDb) throw new Error('Database not configured');'' @ [10] @ [10] @
   cp ''doc(firestoreDb, id)''"
  by (simp add: fix_firestore_references_def uses_firestore_def has_null_check_def
      lstrip_def cp_def is_space_def Let_def)

text \<open>
  C3. For every file that is read without an exception, \<open>process_file\<close> compares the
  text read with \<open>fix_implicit_any_params\<close> of \<open>fix_check_admin_access\<close> of it, writes
  that text when they differ, and does nothing else with the text: its result is
  determined by this composition, in this order. \<open>fix_firestore_references\<close> is not
  applied: a file with the text \<open>doc(firestore, id)\<close>, which that function rewrites, is
  left as it is.
\<close>

theorem process_file_applies_two_fixes:
  assumes "read_text fs p = Inr t"
  shows "process_file U con fs p =
      (if fix_implicit_any_params U (fix_check_admin_access U t) = t then (fs, [], Inr False)
       else (case write_text fs p (fix_implicit_any_params U (fix_check_admin_access U t)) of
               (fs', None) \<Rightarrow> (fs', [], Inr True)
             | (fs', Some e) \<Rightarrow>
                 (case con (ErrorLine p e) of
                    None \<Rightarrow> (fs', [ErrorLine p e], Inr False)
                  | Some e' \<Rightarrow> (fs', [], Inl e')))) \<and>
    process_file ascii_tables con
        (Map.empty(cp ''src/d.ts'' \<mapsto> plain_file (cp ''doc(firestore, id)''))) (cp ''src/d.ts'')
      = (Map.empty(cp ''src/d.ts'' \<mapsto> plain_file (cp ''doc(firestore, id)'')), [], Inr False) \<and>
    fix_firestore_references ascii_tables (cp ''doc(firestore, id)'') \<noteq> cp ''doc(firestore, id)''"
proof (intro conjI)
  show "process_file U con fs p =
      (if fix_implicit_any_params U (fix_check_admin_access U t) = t then (fs, [], Inr False)
       else (case write_text fs p (fix_implicit_any_params U (fix_check_admin_access U t)) of
               (fs', None) \<Rightarrow> (fs', [], Inr True)
             | (fs', Some e) \<Rightarrow>
                 (case con (ErrorLine p e) of
                    None \<Rightarrow> (fs', [ErrorLine p e], Inr False)
                  | Some e' \<Rightarrow> (fs', [], Inl e'))))"
    using assms
    by (simp add: process_file_def process_body_def apply_fixes_def Let_def
        split: prod.splits option.splits)
  have "apply_fixes ascii_tables (cp ''doc(firestore, id)'') = cp ''doc(firestore, id)''"
    by (simp add: apply_fixes_def eval_defs)
  then show "process_file ascii_tables con
        (Map.empty(cp ''src/d.ts'' \<mapsto> plain_file (cp ''doc(firestore, id)''))) (cp ''src/d.ts'')
      = (Map.empty(cp ''src/d.ts'' \<mapsto> plain_file (cp ''doc(firestore, id)'')), [], Inr False)"
    by (simp add: process_file_def process_body_def read_text_def plain_file_def Let_def)
  show "fix_firestore_references ascii_tables (cp ''doc(firestore, id)'') \<noteq>
      cp ''doc(firestore, id)''"
    by (simp add: firestore_example) (simp add: cp_def)
qed

theorem process_file_applies_two_fixes_witness:
  "read_text (Map.empty(cp ''src/b.ts'' \<mapsto> plain_file (cp ''a.map((x) => x)''))) (cp ''src/b.ts'')
     = Inr (cp ''a.map((x) => x)'') \<and>
   fix_implicit_any_params ascii_tables (fix_check_admin_access ascii_tables (cp ''a.map((x) => x)''))
     = cp ''a.map((x: any) => x)'' \<and>
   process_file ascii_tables utf8_console
       (Map.empty(cp ''src/b.ts'' \<mapsto> plain_file (cp ''a.map((x) => x)''))) (cp ''src/b.ts'')
     = (Map.empty(cp ''src/b.ts'' \<mapsto> plain_file (cp ''a.map((x: any) => x)'')), [], Inr True)"
proof -
  let ?fs = "Map.empty(cp ''src/b.ts'' \<mapsto> plain_file (cp ''a.map((x) => x)''))"
  have r: "read_text ?fs (cp ''src/b.ts'') = Inr (cp ''a.map((x) => x)'')"
    by (simp add: read_text_def plain_file_def)
  have c: "fix_implicit_any_params ascii_tables
      (fix_check_admin_access ascii_tables (cp ''a.map((x) => x)'')) = cp ''a.map((x: any) => x)''"
    using map_example by (simp add: apply_fixes_def)
  have w: "write_text ?fs (cp ''src/b.ts'') (cp ''a.map((x: any) => x)'')
      = (Map.empty(cp ''src/b.ts'' \<mapsto> plain_file (cp ''a.map((x: any) => x)'')), None)"
    by (simp add: write_text_def plain_file_def)
  from process_file_applies_two_fixes [OF r, where U = ascii_tables and con = utf8_console] r c w
    map_example_changed
  show ?thesis by simp
qed

section \<open>Reading and writing\<close>

lemma write_text_ok:
  assumes "read_text fs p = Inr t" and "write_text fs p t' = (fs', None)"
  shows "read_text fs' p = Inr t'"
  using assms
  by (auto simp: read_text_def write_text_def split: option.splits node.splits if_splits)

text \<open>
  C1, as the claim states it, fails where the write raises: the file \<open>src/a.ts\<close> is
  readable but not writable, its text \<open>a.map((x) => x)\<close> differs from the text that the
  fixes produce, and \<open>process_file\<close> leaves the file as it is and returns \<open>False\<close>.
\<close>

theorem process_file_read_only_counterexample:
  "read_text (Map.empty(cp ''src/a.ts'' \<mapsto> read_only_file (cp ''a.map((x) => x)'')))
     (cp ''src/a.ts'') = Inr (cp ''a.map((x) => x)'') \<and>
   apply_fixes ascii_tables (cp ''a.map((x) => x)'') \<noteq> cp ''a.map((x) => x)'' \<and>
   process_file ascii_tables utf8_console
     (Map.empty(cp ''src/a.ts'' \<mapsto> read_only_file (cp ''a.map((x) => x)''))) (cp ''src/a.ts'')
     = (Map.empty(cp ''src/a.ts'' \<mapsto> read_only_file (cp ''a.map((x) => x)'')),
        [ErrorLine (cp ''src/a.ts'') PermissionError], Inr False)"
  by (simp add: map_example map_example_changed process_file_def process_body_def
      read_text_def write_text_def read_only_file_def utf8_console_def Let_def)
    (simp add: cp_def is_surrogate_def)

text \<open>
  C1, amended. For a file that is read without an exception: when the fixes leave its
  text as it is, \<open>process_file\<close> leaves the file system as it is, prints nothing and
  returns \<open>False\<close>; when they change the text and the write raises no exception,
  \<open>process_file\<close> returns \<open>True\<close>, prints nothing, and the file system it leaves differs
  from the one it found: the file now holds the new text.
\<close>

theorem process_file_writes_iff_changed:
  assumes "read_text fs p = Inr t"
  shows "(apply_fixes U t = t \<longrightarrow> process_file U con fs p = (fs, [], Inr False)) \<and>
         (apply_fixes U t \<noteq> t \<longrightarrow> write_text fs p (apply_fixes U t) = (fs', None) \<longrightarrow>
            process_file U con fs p = (fs', [], Inr True) \<and> fs' \<noteq> fs \<and>
            read_text fs' p = Inr (apply_fixes U t))"
proof (intro conjI impI)
  assume "apply_fixes U t = t"
  then show "process_file U con fs p = (fs, [], Inr False)"
    using assms by (simp add: process_file_def process_body_def)
next
  assume d: "apply_fixes U t \<noteq> t" and w: "write_text fs p (apply_fixes U t) = (fs', None)"
  show "process_file U con fs p = (fs', [], Inr True)"
    using assms d w by (simp add: process_file_def process_body_def)
  show r: "read_text fs' p = Inr (apply_fixes U t)"
    using assms w by (rule write_text_ok)
  show "fs' \<noteq> fs"
    using r assms d by auto
qed

theorem process_file_writes_iff_changed_witness:
  "read_text (Map.empty(cp ''src/b.ts'' \<mapsto> plain_file (cp ''a.map((x) => x)''))) (cp ''src/b.ts'')
     = Inr (cp ''a.map((x) => x)'') \<and>
   apply_fixes ascii_tables (cp ''a.map((x) => x)'') \<noteq> cp ''a.map((x) => x)'' \<and>
   write_text (Map.empty(cp ''src/b.ts'' \<mapsto> plain_file (cp ''a.map((x) => x)''))) (cp ''src/b.ts'')
       (apply_fixes ascii_tables (cp ''a.map((x) => x)''))
     = (Map.empty(cp ''src/b.ts'' \<mapsto> plain_file (cp ''a.map((x: any) => x)'')), None) \<and>
   process_file ascii_tables utf8_console
       (Map.empty(cp ''src/b.ts'' \<mapsto> plain_file (cp ''a.map((x) => x)''))) (cp ''src/b.ts'')
     = (Map.empty(cp ''src/b.ts'' \<mapsto> plain_file (cp ''a.map((x: any) => x)'')), [], Inr True)"
proof -
  let ?fs = "Map.empty(cp ''src/b.ts'' \<mapsto> plain_file (cp ''a.map((x) => x)''))"
  have r: "read_text ?fs (cp ''src/b.ts'') = Inr (cp ''a.map((x) => x)'')"
    by (simp add: read_text_def plain_file_def)
  have d: "apply_fixes ascii_tables (cp ''a.map((x) => x)'') \<noteq> cp ''a.map((x) => x)''"
    by (simp add: map_example map_example_changed)
  have w: "write_text ?fs (cp ''src/b.ts'') (apply_fixes ascii_tables (cp ''a.map((x) => x)''))
      = (Map.empty(cp ''src/b.ts'' \<mapsto> plain_file (cp ''a.map((x: any) => x)'')), None)"
    by (simp add: map_example write_text_def plain_file_def)
  from process_file_writes_iff_changed [OF r, where U = ascii_tables and con = utf8_console] r d w
  show ?thesis by simp
qed

section \<open>Exceptions\<close>

text \<open>
  What the handler does when its \<open>print\<close> succeeds: \<open>process_file\<close> returns \<open>False\<close>
  behind the error line, and the loop of \<open>main\<close> goes on with the remaining files.
\<close>

lemma process_file_catches:
  assumes "process_body U fs p = (fs', Inl e)" and "con (ErrorLine p e) = None"
  shows "process_file U con fs p = (fs', [ErrorLine p e], Inr False) \<and>
         main_loop U con (p # rest) (fs, out, n) =
           main_loop U con rest (fs', out @ [ErrorLine p e], n)"
  using assms by (simp add: process_file_def)

lemma process_file_catches_example:
  "main ascii_tables utf8_console [cp ''src/a.ts'', cp ''src/b.ts'']
     (Map.empty(cp ''src/a.ts'' \<mapsto> binary_file,
                cp ''src/b.ts'' \<mapsto> plain_file (cp ''a.map((x) => x)'')))
   = (Map.empty(cp ''src/a.ts'' \<mapsto> binary_file,
                cp ''src/b.ts'' \<mapsto> plain_file (cp ''a.map((x: any) => x)'')),
      [ErrorLine (cp ''src/a.ts'') UnicodeDecodeError, FixedLine (cp ''src/b.ts''), Summary 2 1],
      None)"
proof -
  let ?fs = "Map.empty(cp ''src/a.ts'' \<mapsto> binary_file,
                cp ''src/b.ts'' \<mapsto> plain_file (cp ''a.map((x) => x)''))"
  have d: "discover [cp ''src/a.ts'', cp ''src/b.ts''] = [cp ''src/a.ts'', cp ''src/b.ts'']"
    by (simp add: discover_def rglob_def endswith_def cp_def)
  have ok: "utf8_console (ErrorLine (cp ''src/a.ts'') e) = None"
    "utf8_console (FixedLine (cp ''src/b.ts'')) = None"
    "utf8_console (Summary n k) = None" for e n k
    by (simp_all add: utf8_console_def cp_def is_surrogate_def)
  have a: "process_file ascii_tables utf8_console ?fs (cp ''src/a.ts'') =
      (?fs, [ErrorLine (cp ''src/a.ts'') UnicodeDecodeError], Inr False)"
    using sample_paths_differ ok
    by (simp add: process_file_def process_body_def read_text_def binary_file_def)
  have b: "process_file ascii_tables utf8_console ?fs (cp ''src/b.ts'') =
      (Map.empty(cp ''src/a.ts'' \<mapsto> binary_file,
                 cp ''src/b.ts'' \<mapsto> plain_file (cp ''a.map((x: any) => x)'')), [], Inr True)"
    using sample_paths_differ
    by (simp add: map_example map_example_changed process_file_def process_body_def
        read_text_def write_text_def plain_file_def Let_def)
  show ?thesis
    by (simp add: main_def d a b ok)
qed

text \<open>
  C2. The claim is what the handler is written for, and the code misses it where the
  \<open>print\<close> of the handler itself raises. The name of the first file has a byte that is
  no UTF-8, so its path holds the surrogate code point 56575, and its bytes do not decode.
  Reading raises, the handler catches the exception, and its \<open>print\<close> raises
  \<open>UnicodeEncodeError\<close> on a standard output with encoding UTF-8: the exception leaves
  \<open>process_file\<close>, the run ends with it, and the second file, which the fixes would
  rewrite, is never processed.
\<close>

theorem handler_print_aborts_run:
  "discover [cp ''src/'' @ [56575] @ cp ''.ts'', cp ''src/b.ts'']
     = [cp ''src/'' @ [56575] @ cp ''.ts'', cp ''src/b.ts''] \<and>
   process_file ascii_tables utf8_console
     (Map.empty(cp ''src/'' @ [56575] @ cp ''.ts'' \<mapsto> binary_file,
                cp ''src/b.ts'' \<mapsto> plain_file (cp ''a.map((x) => x)'')))
     (cp ''src/'' @ [56575] @ cp ''.ts'')
   = (Map.empty(cp ''src/'' @ [56575] @ cp ''.ts'' \<mapsto> binary_file,
                cp ''src/b.ts'' \<mapsto> plain_file (cp ''a.map((x) => x)'')),
      [], Inl UnicodeEncodeError) \<and>
   main ascii_tables utf8_console [cp ''src/'' @ [56575] @ cp ''.ts'', cp ''src/b.ts'']
     (Map.empty(cp ''src/'' @ [56575] @ cp ''.ts'' \<mapsto> binary_file,
                cp ''src/b.ts'' \<mapsto> plain_file (cp ''a.map((x) => x)'')))
   = (Map.empty(cp ''src/'' @ [56575] @ cp ''.ts'' \<mapsto> binary_file,
                cp ''src/b.ts'' \<mapsto> plain_file (cp ''a.map((x) => x)'')),
      [], Some UnicodeEncodeError)"
proof -
  let ?p = "cp ''src/'' @ [56575] @ cp ''.ts''"
  let ?fs = "Map.empty(?p \<mapsto> binary_file, cp ''src/b.ts'' \<mapsto> plain_file (cp ''a.map((x) => x)''))"
  have ne: "?p \<noteq> cp ''src/b.ts''" by (simp add: cp_def)
  have d: "discover [?p, cp ''src/b.ts''] = [?p, cp ''src/b.ts'']"
    by (simp add: discover_def rglob_def endswith_def cp_def)
  have c: "utf8_console (ErrorLine ?p e) = Some UnicodeEncodeError" for e
    by (simp add: utf8_console_def cp_def is_surrogate_def)
  have a: "process_file ascii_tables utf8_console ?fs ?p = (?fs, [], Inl UnicodeEncodeError)"
    using ne c by (simp add: process_file_def process_body_def read_text_def binary_file_def)
  show ?thesis
    using d a by (simp add: main_def)
qed

text \<open>
  C10. When reading the file raises an exception, \<open>process_file\<close> leaves the file
  system exactly as it found it, whether the \<open>print\<close> of its handler succeeds (it
  returns \<open>False\<close> behind the error line) or raises.
\<close>

theorem read_failure_leaves_files:
  assumes "read_text fs p = Inl e"
  shows "process_file U con fs p =
     (case con (ErrorLine p e) of
        None \<Rightarrow> (fs, [ErrorLine p e], Inr False)
      | Some e' \<Rightarrow> (fs, [], Inl e'))"
  using assms by (simp add: process_file_def process_body_def)

theorem read_failure_leaves_files_witness:
  "read_text (Map.empty(cp ''src/a.ts'' \<mapsto> binary_file)) (cp ''src/a.ts'')
     = Inl UnicodeDecodeError \<and>
   process_file ascii_tables utf8_console (Map.empty(cp ''src/a.ts'' \<mapsto> binary_file))
       (cp ''src/a.ts'')
     = (Map.empty(cp ''src/a.ts'' \<mapsto> binary_file),
        [ErrorLine (cp ''src/a.ts'') UnicodeDecodeError], Inr False)"
proof -
  have h: "read_text (Map.empty(cp ''src/a.ts'' \<mapsto> binary_file)) (cp ''src/a.ts'')
      = Inl UnicodeDecodeError"
    by (simp add: read_text_def binary_file_def)
  have c: "utf8_console (ErrorLine (cp ''src/a.ts'') UnicodeDecodeError) = None"
    by (simp add: utf8_console_def cp_def is_surrogate_def)
  from read_failure_leaves_files [OF h, of ascii_tables utf8_console] h c show ?thesis by simp
qed

text \<open>
  A write that fails behind the opening of the file is caught by the same handler, but
  the file is truncated by then and holds what had been written of the new text.
\<close>

lemma write_failure_truncates:
  "process_file ascii_tables utf8_console
     (Map.empty(cp ''src/a.ts'' \<mapsto>
        File \<lparr>decoded = Some (cp ''a.map((x) => x)''), may_read = True, may_write = True,
              write_fault = Some 5\<rparr>)) (cp ''src/a.ts'')
   = (Map.empty(cp ''src/a.ts'' \<mapsto>
        File \<lparr>decoded = Some (cp ''a.map''), may_read = True, may_write = True,
              write_fault = Some 5\<rparr>),
      [ErrorLine (cp ''src/a.ts'') OSError], Inr False)"
  by (simp add: map_example map_example_changed process_file_def process_body_def
      read_text_def write_text_def utf8_console_def Let_def)
    (simp add: cp_def is_surrogate_def)

section \<open>File discovery\<close>

lemma discover_skips_node_modules:
  "is_in (cp ''node_modules'') f \<Longrightarrow> f \<notin> set (discover listing)"
  by (simp add: discover_def rglob_def)

lemma set_discover:
  "set (discover listing) =
   {f \<in> set listing. (endswith f (cp ''.ts'') \<or> endswith f (cp ''.tsx'')) \<and>
      is_in (cp ''src'') f \<and> \<not> is_in (cp ''node_modules'') f}"
  by (auto simp: discover_def rglob_def)

text \<open>
  C8. \<open>discover\<close> tests whether the path contains the text \<open>src\<close> and the text
  \<open>node_modules\<close> anywhere, not as a component: it selects \<open>/app/lib/srcmap.ts\<close>, which
  has no component \<open>src\<close>, and it drops \<open>/app/src/node_modules_list.ts\<close>, which lies in
  \<open>src\<close> and has no component \<open>node_modules\<close>.
\<close>

theorem discover_tests_substrings:
  "discover [cp ''/app/lib/srcmap.ts'', cp ''/app/src/node_modules_list.ts'']
     = [cp ''/app/lib/srcmap.ts''] \<and>
   cp ''src'' \<notin> set (split_on 47 (cp ''/app/lib/srcmap.ts'')) \<and>
   cp ''src'' \<in> set (split_on 47 (cp ''/app/src/node_modules_list.ts'')) \<and>
   cp ''node_modules'' \<notin> set (split_on 47 (cp ''/app/src/node_modules_list.ts''))"
  by (simp add: discover_def rglob_def endswith_def cp_def)

section \<open>The matcher on the patterns of the script\<close>

lemma first_some_None: "(\<And>x. x \<in> set xs \<Longrightarrow> f x = None) \<Longrightarrow> first_some f xs = None"
  by (induction xs) auto

lemma first_some_greedy:
  assumes "\<And>n. lo \<le> n \<Longrightarrow> n < hi \<Longrightarrow> f n = None"
  shows "first_some f (rev [lo ..< Suc hi]) = (if lo \<le> hi then f hi else None)"
proof (cases "lo \<le> hi")
  case True
  have "first_some f (rev [lo ..< hi]) = None"
    by (rule first_some_None) (use assms in auto)
  with True show ?thesis by (simp split: option.splits)
next
  case False
  then show ?thesis by simp
qed

lemma take_drop_takeWhile_ne:
  assumes "n < length (takeWhile cls s)" and "r \<noteq> []" and "\<not> cls (hd r)"
  shows "take (length r) (drop n s) \<noteq> r"
proof
  assume e: "take (length r) (drop n s) = r"
  have n: "n < length s" using assms(1) length_takeWhile_le[of cls s] by simp
  have "cls (s ! n)" using assms(1)
    by (metis nth_mem set_takeWhileD takeWhile_nth)
  moreover have "hd r = s ! n"
    using e assms(2) n by (metis Cons_nth_drop_Suc hd_take list.sel(1) length_greater_0_conv)
  ultimately show False using assms(3) by simp
qed

text \<open>A greedy repetition before a literal that starts outside the class takes the longest run.\<close>

lemma match_rep_lit:
  assumes "r \<noteq> []" and "\<not> cls (hd r)"
  shows "match_here (Rep cls lo True # Lit r # its) done s =
     (let n = length (takeWhile cls s)
      in if lo \<le> n then match_here (Lit r # its) (done @ [take n s]) (drop n s) else None)"
proof -
  have h: "take (length r) (drop n s) \<noteq> r" if "n < length (takeWhile cls s)" for n
    using take_drop_takeWhile_ne[of n cls s r] that assms by blast
  let ?f = "\<lambda>n. match_here (Lit r # its) (done @ [take n s]) (drop n s)"
  have "first_some ?f (rev [lo ..< Suc (length (takeWhile cls s))]) =
      (if lo \<le> length (takeWhile cls s) then ?f (length (takeWhile cls s)) else None)"
    by (rule first_some_greedy) (simp add: h)
  then show ?thesis
    by (simp only: match_here.simps(4) counts_def Let_def if_True)
qed

lemma match_lit_rep_lit:
  assumes "r \<noteq> []" and "\<not> cls (hd r)"
  shows "re_match [Lit l, Rep cls lo True, Lit r] s =
     (let w = takeWhile cls (drop (length l) s)
      in if take (length l) s = l \<and> lo \<le> length w \<and>
            take (length r) (drop (length w) (drop (length l) s)) = r
         then Some [l, w, r] else None)"
  using assms
  by (simp add: re_match_def match_rep_lit Let_def takeWhile_eq_take[symmetric]
      del: match_here.simps(4))

lemma callback_match:
  "re_match (callback_pattern U m) s =
     (let w = takeWhile (is_word U) (drop (length m) s)
      in if take (length m) s = cp m \<and> w \<noteq> [] \<and>
            take 4 (drop (length w) (drop (length m) s)) = cp '') =>''
         then Some [cp m, w, cp '') =>''] else None)"
proof -
  have h: "cp '') =>'' \<noteq> []" "\<not> is_word U (hd (cp '') =>''))" "length (cp '') =>'') = 4"
    by (simp_all add: cp_def is_word_def)
  have l: "length (cp m) = length m" by (simp add: cp_def)
  show ?thesis
    using match_lit_rep_lit[of "cp '') =>''" "is_word U" "cp m" 1 s] h
    by (simp add: callback_pattern_def l Let_def Suc_le_eq)
qed

lemma not_word: "\<not> is_word U 41" "\<not> is_word U 46" "\<not> is_word U 58" "\<not> is_word U 39" "\<not> is_word U 34"
  by (simp_all add: is_word_def)


lemma length_cp [simp]: "length (cp m) = length m"
  by (simp add: cp_def)

lemma callback_match_iff:
  "re_match (callback_pattern U m) s \<noteq> None \<longleftrightarrow>
   (\<exists>w. w \<noteq> [] \<and> (\<forall>c \<in> set w. is_word U c) \<and> prefix (cp m @ w @ cp '') =>'') s)"
proof
  assume a: "re_match (callback_pattern U m) s \<noteq> None"
  let ?w = "takeWhile (is_word U) (drop (length m) s)"
  from a have c: "take (length m) s = cp m" "?w \<noteq> []"
    "take 4 (drop (length ?w) (drop (length m) s)) = cp '') =>''"
    by (auto simp: callback_match Let_def split: if_splits)
  have "s = take (length m) s @ take (length ?w) (drop (length m) s) @
      take 4 (drop (length ?w) (drop (length m) s)) @
      drop 4 (drop (length ?w) (drop (length m) s))"
    by (simp only: append_take_drop_id)
  then have "s = cp m @ ?w @ cp '') =>'' @ drop 4 (drop (length ?w) (drop (length m) s))"
    using c by (simp add: takeWhile_eq_take[symmetric])
  then have "prefix (cp m @ ?w @ cp '') =>'') s"
    by (metis append.assoc prefixI)
  moreover have "\<forall>c \<in> set ?w. is_word U c"
    by (auto dest: set_takeWhileD)
  ultimately show "\<exists>w. w \<noteq> [] \<and> (\<forall>c \<in> set w. is_word U c) \<and> prefix (cp m @ w @ cp '') =>'') s"
    using c(2) by blast
next
  assume "\<exists>w. w \<noteq> [] \<and> (\<forall>c \<in> set w. is_word U c) \<and> prefix (cp m @ w @ cp '') =>'') s"
  then obtain w r where w: "w \<noteq> []" "\<forall>c \<in> set w. is_word U c"
    and s: "s = cp m @ w @ cp '') =>'' @ r"
    by (auto simp: prefix_def)
  have t: "takeWhile (is_word U) (w @ cp '') =>'' @ r) = w"
    using w(2) by (simp add: takeWhile_append2 cp_def is_word_def)
  show "re_match (callback_pattern U m) s \<noteq> None"
    using w(1) by (simp add: callback_match s t)
qed

lemma callback_match_Nil [simp]: "re_match (callback_pattern U m) [] = None"
  by (simp add: callback_match)

lemma re_sub_callback_skip:
  "re_match (callback_pattern U m) (c # cs) = None \<Longrightarrow>
   re_sub (callback_pattern U m) (callback_template m) (c # cs) =
   c # re_sub (callback_pattern U m) (callback_template m) cs"
  by simp

lemma re_sub_callback_hit:
  assumes "w \<noteq> []" and "\<forall>c \<in> set w. is_word U c"
  shows "re_sub (callback_pattern U m) (callback_template m) (cp m @ w @ cp '') =>'' @ r) =
     cp m @ w @ cp '': any) =>'' @ re_sub (callback_pattern U m) (callback_template m) r"
proof -
  let ?s = "cp m @ w @ cp '') =>'' @ r"
  have t: "takeWhile (is_word U) (w @ cp '') =>'' @ r) = w"
    using assms(2) by (simp add: takeWhile_append2 cp_def is_word_def)
  have m: "re_match (callback_pattern U m) ?s = Some [cp m, w, cp '') =>'']"
    using assms(1) by (simp add: callback_match t)
  obtain c cs where cs: "?s = c # cs"
    using assms(1) by (cases ?s) auto
  have d: "drop (length m + (length w + length (cp '') =>''))) ?s = r"
    by simp
  have "re_sub (callback_pattern U m) (callback_template m) (c # cs) =
      callback_template m [cp m, w, cp '') =>''] @
      re_sub (callback_pattern U m) (callback_template m)
        (drop (length (concat [cp m, w, cp '') =>''])) (c # cs))"
    using m assms(1) unfolding cs by (subst re_sub.simps(2)) simp
  then show ?thesis
    unfolding cs[symmetric] using d by (simp add: callback_template_def)
qed


lemma methods_shape: "m \<in> set methods \<Longrightarrow> \<exists>t. cp m = 46 # t \<and> 46 \<notin> set t"
  by (auto simp: methods_def cp_def)

lemma methods_no_prefix:
  "m \<in> set methods \<Longrightarrow> m' \<in> set methods \<Longrightarrow> prefix (cp m') (cp m @ z) \<Longrightarrow> m' = m"
  by (auto simp: methods_def cp_def)

lemma word_run_mismatch:
  "\<forall>c \<in> set w. is_word U c \<Longrightarrow> \<forall>c \<in> set w'. is_word U c \<Longrightarrow>
   prefix (w' @ 41 # a) (w @ 58 # b) \<Longrightarrow> False"
proof (induction w arbitrary: w')
  case Nil
  then show ?case by (cases w') (auto simp: is_word_def)
next
  case (Cons c w)
  then show ?case by (cases w') (auto simp: is_word_def)
qed

lemma callback_match_hd:
  assumes "m \<in> set methods" and "re_match (callback_pattern U m) (c # t) \<noteq> None"
  shows "c = 46"
proof -
  from assms(2) obtain w where "prefix (cp m @ w @ cp '') =>'') (c # t)"
    unfolding callback_match_iff by blast
  with methods_shape[OF assms(1)] show ?thesis by auto
qed

lemma prefix_re_sub_callback:
  assumes "m \<in> set methods"
  shows "prefix x (re_sub (callback_pattern U m) (callback_template m) s) \<Longrightarrow>
     46 \<notin> set x \<Longrightarrow> prefix x s"
proof (induction s arbitrary: x rule: length_induct)
  case (1 s)
  let ?sub = "re_sub (callback_pattern U m) (callback_template m)"
  show ?case
  proof (cases s)
    case Nil
    with 1(2) show ?thesis by simp
  next
    case (Cons c cs)
    show ?thesis
    proof (cases "re_match (callback_pattern U m) s = None")
      case True
      then have e: "?sub s = c # ?sub cs" unfolding Cons by simp
      show ?thesis
      proof (cases x)
        case Nil
        then show ?thesis by simp
      next
        case (Cons d x')
        with 1(2,3) e have "d = c" "prefix x' (?sub cs)" "46 \<notin> set x'" by auto
        with 1(1) \<open>s = c # cs\<close> have "prefix x' cs" by simp
        with \<open>d = c\<close> Cons \<open>s = c # cs\<close> show ?thesis by simp
      qed
    next
      case False
      then obtain w r where w: "w \<noteq> []" "\<forall>c \<in> set w. is_word U c"
        and s: "s = cp m @ w @ cp '') =>'' @ r"
        unfolding callback_match_iff by (auto simp: prefix_def)
      from methods_shape[OF assms] obtain t where t: "cp m = 46 # t" by blast
      have "?sub s = cp m @ w @ cp '': any) =>'' @ ?sub r"
        unfolding s by (rule re_sub_callback_hit[OF w])
      then have "?sub s = 46 # t @ w @ cp '': any) =>'' @ ?sub r"
        by (simp add: t)
      with 1(2,3) show ?thesis by (cases x) auto
    qed
  qed
qed

lemma nowhere_append_no_dot:
  assumes "m \<in> set methods" and "nowhere (callback_pattern U m) r" and "46 \<notin> set x"
  shows "nowhere (callback_pattern U m) (x @ r)"
  using assms(3)
proof (induction x)
  case Nil
  then show ?case using assms(2) by simp
next
  case (Cons c x)
  have "re_match (callback_pattern U m) (c # x @ r) = None"
  proof (rule ccontr)
    assume "re_match (callback_pattern U m) (c # x @ r) \<noteq> None"
    then have "c = 46" by (rule callback_match_hd[OF assms(1)])
    with Cons(2) show False by simp
  qed
  with Cons show ?case by simp
qed

lemma nowhere_suffix: "nowhere p (a @ b) \<Longrightarrow> nowhere p b"
  by (induction a) auto

lemma nowhere_after_callback:
  assumes m: "m \<in> set methods" and m': "m' \<in> set methods"
  shows "m' = m \<or> nowhere (callback_pattern U m') s \<Longrightarrow>
     nowhere (callback_pattern U m') (re_sub (callback_pattern U m) (callback_template m) s)"
proof (induction s rule: length_induct)
  case (1 s)
  let ?sub = "re_sub (callback_pattern U m) (callback_template m)"
  from methods_shape[OF m] obtain t where t: "cp m = 46 # t" "46 \<notin> set t" by blast
  from methods_shape[OF m'] obtain t' where t': "cp m' = 46 # t'" "46 \<notin> set t'" by blast
  show ?case
  proof (cases s)
    case Nil
    then show ?thesis by simp
  next
    case (Cons c cs)
    show ?thesis
    proof (cases "re_match (callback_pattern U m) s = None")
      case True
      then have e: "?sub s = c # ?sub cs" unfolding Cons by simp
      have hyp: "m' = m \<or> nowhere (callback_pattern U m') cs"
        using 1(2) Cons by auto
      have ih: "nowhere (callback_pattern U m') (?sub cs)"
        using 1(1)[rule_format, of cs] Cons hyp by auto
      have "re_match (callback_pattern U m') (c # ?sub cs) = None"
      proof (rule ccontr)
        assume "re_match (callback_pattern U m') (c # ?sub cs) \<noteq> None"
        then obtain w where w: "w \<noteq> []" "\<forall>c \<in> set w. is_word U c"
          and p: "prefix (cp m' @ w @ cp '') =>'') (c # ?sub cs)"
          unfolding callback_match_iff by blast
        from p t' have c: "c = 46" and p': "prefix (t' @ w @ cp '') =>'') (?sub cs)"
          by auto
        have "46 \<notin> set (t' @ w @ cp '') =>'')"
          using t'(2) w(2) by (auto simp: cp_def is_word_def)
        with p' have "prefix (t' @ w @ cp '') =>'') cs"
          by (rule prefix_re_sub_callback[OF m])
        with c t' have "prefix (cp m' @ w @ cp '') =>'') s"
          unfolding Cons by simp
        with w have n: "re_match (callback_pattern U m') s \<noteq> None"
          unfolding callback_match_iff by blast
        show False
        proof (cases "m' = m")
          case True
          with n \<open>re_match (callback_pattern U m) s = None\<close> show False by simp
        next
          case False
          with 1(2) n Cons show False by auto
        qed
      qed
      with ih e show ?thesis by simp
    next
      case False
      then obtain w r where w: "w \<noteq> []" "\<forall>c \<in> set w. is_word U c"
        and s: "s = cp m @ w @ cp '') =>'' @ r"
        unfolding callback_match_iff by (auto simp: prefix_def)
      have ss: "?sub s = cp m @ w @ cp '': any) =>'' @ ?sub r"
        unfolding s by (rule re_sub_callback_hit[OF w])
      then have e: "?sub s = 46 # (t @ w @ cp '': any) =>'') @ ?sub r"
        by (simp add: t)
      have "m' = m \<or> nowhere (callback_pattern U m') r"
        using 1(2) nowhere_suffix[of "callback_pattern U m'" "cp m @ w @ cp '') =>''" r]
        unfolding s by auto
      moreover have "length r < length s" using w(1) unfolding s by simp
      ultimately have ih: "nowhere (callback_pattern U m') (?sub r)"
        using 1(1)[rule_format, of r] by blast
      have nd: "46 \<notin> set (t @ w @ cp '': any) =>'')"
        using t(2) w(2) by (auto simp: cp_def is_word_def)
      have tail: "nowhere (callback_pattern U m') ((t @ w @ cp '': any) =>'') @ ?sub r)"
        by (rule nowhere_append_no_dot[OF m' ih nd])
      have "re_match (callback_pattern U m') (?sub s) = None"
      proof (rule ccontr)
        assume "re_match (callback_pattern U m') (?sub s) \<noteq> None"
        then obtain w' where w': "w' \<noteq> []" "\<forall>c \<in> set w'. is_word U c"
          and p: "prefix (cp m' @ w' @ cp '') =>'') (?sub s)"
          unfolding callback_match_iff by blast
        from p have "prefix (cp m') (cp m @ (w @ cp '': any) =>'' @ ?sub r))"
          unfolding ss by (metis append_prefixD)
        then have "m' = m" by (rule methods_no_prefix[OF m m'])
        with p have "prefix (w' @ cp '') =>'') (w @ cp '': any) =>'' @ ?sub r)"
          unfolding ss by simp
        then have "prefix (w' @ 41 # cp '' =>'') (w @ 58 # cp '' any) =>'' @ ?sub r)"
          by (simp add: cp_def)
        with w(2) w'(2) show False by (rule word_run_mismatch)
      qed
      with tail show ?thesis unfolding e by simp
    qed
  qed
qed


lemma foldl_callbacks_nowhere:
  assumes "set ms \<subseteq> set methods" and "set ds \<subseteq> set methods"
    and "\<forall>m' \<in> set ds. nowhere (callback_pattern U m') t"
  shows "\<forall>m' \<in> set ds \<union> set ms. nowhere (callback_pattern U m')
     (foldl (\<lambda>content (pattern, replacement). re_sub pattern replacement content) t
        (map (\<lambda>m. (callback_pattern U m, callback_template m)) ms))"
  using assms
proof (induction ms arbitrary: t ds)
  case Nil
  then show ?case by simp
next
  case (Cons m ms)
  let ?t = "re_sub (callback_pattern U m) (callback_template m) t"
  have m: "m \<in> set methods" using Cons(2) by simp
  have "\<forall>m' \<in> set (m # ds). nowhere (callback_pattern U m') ?t"
  proof
    fix m' assume a: "m' \<in> set (m # ds)"
    then have m': "m' \<in> set methods" using m Cons(3) by auto
    have "m' = m \<or> nowhere (callback_pattern U m') t" using a Cons(4) by auto
    then show "nowhere (callback_pattern U m') ?t"
      by (rule nowhere_after_callback[OF m m'])
  qed
  from Cons(1)[of "m # ds" ?t, OF _ _ this] Cons(2,3) m show ?case by simp
qed

lemma fix_implicit_any_params_nowhere:
  assumes "m \<in> set methods"
  shows "nowhere (callback_pattern U m) (fix_implicit_any_params U t)"
  using foldl_callbacks_nowhere[of methods "[]" U t] assms
  by (simp add: fix_implicit_any_params_def patterns_def)


section \<open>The response pattern\<close>

lemma not_quote_run:
  assumes "n < length (takeWhile (\<lambda>c. c \<noteq> 39 \<and> c \<noteq> 34) s)" and "q = 39 \<or> q = (34::nat)"
  shows "take (Suc 0) (drop n s) \<noteq> [q]"
  using take_drop_takeWhile_ne[of n "\<lambda>c. c \<noteq> 39 \<and> c \<noteq> 34" s "[q]"] assms by auto

lemma match_rep_back:
  assumes "q = 39 \<or> q = (34::nat)" and "k < length done" and "done ! k = [q]"
  shows "match_here (Rep (\<lambda>c. c \<noteq> 39 \<and> c \<noteq> 34) lo True # Back k # its) done s =
     (let n = length (takeWhile (\<lambda>c. c \<noteq> 39 \<and> c \<noteq> 34) s)
      in if lo \<le> n then match_here (Back k # its) (done @ [take n s]) (drop n s) else None)"
proof -
  let ?cls = "\<lambda>c. c \<noteq> 39 \<and> c \<noteq> (34::nat)"
  let ?f = "\<lambda>n. match_here (Back k # its) (done @ [take n s]) (drop n s)"
  have "?f n = None" if "n < length (takeWhile ?cls s)" for n
    using not_quote_run[OF that assms(1)] assms(2,3) by (simp add: nth_append Let_def)
  then have "first_some ?f (rev [lo ..< Suc (length (takeWhile ?cls s))]) =
      (if lo \<le> length (takeWhile ?cls s) then ?f (length (takeWhile ?cls s)) else None)"
    by (intro first_some_greedy) simp
  then show ?thesis
    by (simp only: match_here.simps(4) counts_def Let_def if_True)
qed


lemma not_digit_space: "\<not> is_digit U 32"
  by (simp add: is_digit_def)

lemma response_match:
  assumes "re_match (response_pattern U) s = Some ps"
  shows "\<exists>q msg d r. (q = 39 \<or> q = 34) \<and> msg \<noteq> [] \<and> (\<forall>c \<in> set msg. c \<noteq> 39 \<and> c \<noteq> 34) \<and>
     d \<noteq> [] \<and> (\<forall>c \<in> set d. is_digit U c) \<and>
     ps = [cp ''return NextResponse.json({ error: '', [q], msg, [q],
           cp '' }, { status: '', d, cp '' })''] \<and>
     s = concat ps @ r"
proof -
  let ?H = "cp ''return NextResponse.json({ error: ''"
  let ?T1 = "cp '' }, { status: ''"
  let ?T2 = "cp '' })''"
  let ?nq = "\<lambda>c. c \<noteq> 39 \<and> c \<noteq> (34::nat)"
  from assms have m0: "match_here (response_pattern U) [] s = Some ps"
    by (simp add: re_match_def)
  define s1 where "s1 = drop (length ?H) s"
  from m0 have h: "take (length ?H) s = ?H"
    and m1: "match_here (tl (response_pattern U)) [?H] s1 = Some ps"
    by (auto simp: response_pattern_def s1_def split: if_splits)
  from m1 obtain q s2 where s1: "s1 = q # s2" and q: "q = 39 \<or> q = 34"
    and m2: "match_here (drop 2 (response_pattern U)) [?H, [q]] s2 = Some ps"
    by (auto simp: response_pattern_def split: list.splits if_splits)
  define msg where "msg = takeWhile ?nq s2"
  define s3 where "s3 = drop (length msg) s2"
  have msg_take: "take (length msg) s2 = msg"
    by (simp add: msg_def takeWhile_eq_take[symmetric])
  from m2 have n: "msg \<noteq> []"
    and m3: "match_here (drop 3 (response_pattern U)) [?H, [q], msg] s3 = Some ps"
    using match_rep_back[OF q, of 1 "[?H, [q]]" 1 "drop 4 (response_pattern U)" s2]
    by (auto simp: response_pattern_def msg_def s3_def Let_def Suc_le_eq
        takeWhile_eq_take[symmetric] split: if_splits)
  from m3 have b: "take 1 s3 = [q]"
    and m4: "match_here (drop 4 (response_pattern U)) [?H, [q], msg, [q]] (drop 1 s3) = Some ps"
    by (auto simp: response_pattern_def Let_def split: if_splits)
  define s5 where "s5 = drop (length ?T1) (drop 1 s3)"
  from m4 have t1: "take (length ?T1) (drop 1 s3) = ?T1"
    and m5: "match_here (drop 5 (response_pattern U)) [?H, [q], msg, [q], ?T1] s5 = Some ps"
    by (auto simp: response_pattern_def s5_def split: if_splits)
  define d where "d = takeWhile (is_digit U) s5"
  have d_take: "take (length d) s5 = d"
    by (simp add: d_def takeWhile_eq_take[symmetric])
  have t2h: "?T2 \<noteq> []" "\<not> is_digit U (hd ?T2)"
    by (simp_all add: cp_def is_digit_def)
  from m5 have dn: "d \<noteq> []" and t2: "take (length ?T2) (drop (length d) s5) = ?T2"
    and ps: "ps = [?H, [q], msg, [q], ?T1, d, ?T2]"
    using match_rep_lit[of ?T2 "is_digit U" 1 "[]" "[?H, [q], msg, [q], ?T1]" s5] t2h
    by (auto simp: response_pattern_def d_def Let_def Suc_le_eq
        takeWhile_eq_take[symmetric] split: if_splits)
  have "s = ?H @ s1" using h by (metis append_take_drop_id s1_def)
  moreover have "s2 = msg @ s3" using msg_take by (metis append_take_drop_id s3_def)
  moreover have "s3 = [q] @ drop 1 s3" using b by (metis append_take_drop_id)
  moreover have "drop 1 s3 = ?T1 @ s5" using t1 by (metis append_take_drop_id s5_def)
  moreover have "s5 = d @ ?T2 @ drop (length ?T2) (drop (length d) s5)"
    using d_take t2 by (metis append_take_drop_id)
  ultimately have "s = concat ps @ drop (length ?T2) (drop (length d) s5)"
    using s1 ps by simp
  moreover have "\<forall>c \<in> set msg. ?nq c" unfolding msg_def by (auto dest: set_takeWhileD)
  moreover have "\<forall>c \<in> set d. is_digit U c" unfolding d_def by (auto dest: set_takeWhileD)
  ultimately show ?thesis using q n dn ps by blast
qed

section \<open>Matches are prefixes of the text\<close>

lemma throws_for_refl: "throws_for U s s"
  by (induction s) (auto intro: throws_for.intros)

lemma throws_for_append:
  "throws_for U a b \<Longrightarrow> throws_for U c d \<Longrightarrow> throws_for U (a @ c) (b @ d)"
proof (induction rule: throws_for.induct)
  case throws_nil
  then show ?case by simp
next
  case (throws_copy xs ys c)
  then show ?case by (simp add: throws_for.throws_copy)
next
  case (throws_stmt xs ys q msg d)
  from throws_for.throws_stmt[OF throws_stmt(7)[OF throws_stmt(8)] throws_stmt(2-6)]
  show ?case by simp
qed

lemma first_some_Some: "first_some f xs = Some y \<Longrightarrow> \<exists>x \<in> set xs. f x = Some y"
  by (induction xs) (auto split: option.splits)

lemma match_here_sound:
  "match_here its done s = Some ps \<Longrightarrow> \<exists>ps' r. ps = done @ ps' \<and> s = concat ps' @ r"
proof (induction its arbitrary: "done" s)
  case Nil
  then show ?case by simp
next
  case (Cons it its)
  have step: "\<exists>ps' r. ps = done @ ps' \<and> s = concat ps' @ r"
    if "match_here its (done @ [x]) (drop (length x) s) = Some ps" and "take (length x) s = x" for x
  proof -
    from Cons(1)[OF that(1)] obtain ps' r where
      "ps = (done @ [x]) @ ps'" "drop (length x) s = concat ps' @ r" by blast
    moreover have "s = x @ drop (length x) s" using that(2) by (metis append_take_drop_id)
    ultimately have "ps = done @ (x # ps')" "s = concat (x # ps') @ r" by simp_all
    then show ?thesis by blast
  qed
  show ?case
  proof (cases it)
    case (Lit l)
    with Cons(2) have "match_here its (done @ [l]) (drop (length l) s) = Some ps"
      "take (length l) s = l"
      by (auto split: if_splits)
    then show ?thesis by (rule step)
  next
    case (Alt ls)
    with Cons(2) obtain l where "take (length l) s = l"
      "match_here its (done @ [l]) (drop (length l) s) = Some ps"
      by (auto dest!: first_some_Some split: if_splits)
    then show ?thesis using step[of l] by blast
  next
    case (Rep cls lo greedy)
    with Cons(2) obtain n where n: "n \<in> set (counts cls lo greedy s)"
      "match_here its (done @ [take n s]) (drop n s) = Some ps"
      by (auto dest!: first_some_Some)
    then have "n \<le> length s"
      using length_takeWhile_le[of cls s] by (auto simp: counts_def Let_def split: if_splits)
    with n(2) show ?thesis by (intro step[of "take n s"]) (simp_all add: min_absorb2)
  next
    case (One cls)
    with Cons(2) obtain c cs where "s = c # cs"
      "match_here its (done @ [[c]]) cs = Some ps"
      by (auto split: list.splits if_splits)
    then show ?thesis by (intro step[of "[c]"]) simp_all
  next
    case (Opt c)
    with Cons(2) consider "take 1 s = [c]" "match_here its (done @ [[c]]) (drop 1 s) = Some ps"
      | "match_here its (done @ [[]]) s = Some ps"
      by (auto split: option.splits if_splits)
    then show ?thesis
    proof cases
      case 1
      then show ?thesis by (intro step[of "[c]"]) simp_all
    next
      case 2
      then show ?thesis by (intro step[of "[]"]) simp_all
    qed
  next
    case (Back k)
    with Cons(2) have "match_here its (done @ [done ! k]) (drop (length (done ! k)) s) = Some ps"
      "take (length (done ! k)) s = done ! k"
      by (auto simp: Let_def split: if_splits)
    then show ?thesis by (rule step)
  qed
qed

lemma re_match_sound: "re_match p s = Some ps \<Longrightarrow> \<exists>r. s = concat ps @ r"
  using match_here_sound[of p "[]" s ps] by (auto simp: re_match_def)

lemma re_sub_hit:
  assumes "re_match p s = Some ps" and "concat ps \<noteq> []" and "s = concat ps @ r"
  shows "re_sub p f s = f ps @ re_sub p f r"
proof (cases s)
  case Nil
  with assms(2,3) show ?thesis by (metis append_is_Nil_conv)
next
  case (Cons c cs)
  have "drop (length (concat ps)) (c # cs) = r"
    using assms(3) Cons by (metis append_eq_conv_conj)
  with assms(1,2) show ?thesis
    unfolding Cons by (simp del: concat_eq_Nil_conv)
qed

lemma throws_for_response:
  "throws_for U s (re_sub (response_pattern U) throw_template s)"
proof (induction s rule: length_induct)
  case (1 s)
  let ?sub = "re_sub (response_pattern U) throw_template"
  show ?case
  proof (cases "re_match (response_pattern U) s")
    case None
    then show ?thesis
    proof (cases s)
      case Nil
      with None show ?thesis by (simp add: throws_nil)
    next
      case (Cons c cs)
      with None 1 show ?thesis by (simp add: throws_copy)
    qed
  next
    case (Some ps)
    from response_match[OF Some] obtain q msg d r where
      q: "q = 39 \<or> q = 34" and msg: "msg \<noteq> []" "\<forall>c \<in> set msg. c \<noteq> 39 \<and> c \<noteq> 34"
      and d: "d \<noteq> []" "\<forall>c \<in> set d. is_digit U c"
      and ps: "ps = [cp ''return NextResponse.json({ error: '', [q], msg, [q],
           cp '' }, { status: '', d, cp '' })'']"
      and s: "s = concat ps @ r"
      by blast
    have ne: "concat ps \<noteq> []" using ps msg by simp
    have e: "?sub s = throw_template ps @ ?sub r"
      using Some ne s by (rule re_sub_hit)
    have "length r < length s" using s ne by simp
    with 1 have ih: "throws_for U r (?sub r)" by blast
    have tt: "throw_template ps = cp ''throw new Error('' @ [q] @ msg @ [q] @ cp '')''"
      by (simp add: ps throw_template_def)
    have "throws_for U (cp ''return NextResponse.json({ error: '' @ [q] @ msg @ [q] @
          cp '' }, { status: '' @ d @ cp '' })'' @ r)
       (cp ''throw new Error('' @ [q] @ msg @ [q] @ cp '')'' @ ?sub r)"
      using ih q msg d by (intro throws_stmt) (simp_all add: list_all_iff)
    moreover have "s = cp ''return NextResponse.json({ error: '' @ [q] @ msg @ [q] @
          cp '' }, { status: '' @ d @ cp '' })'' @ r"
      using s ps by simp
    ultimately show ?thesis unfolding e tt by simp
  qed
qed

lemma throws_for_admin: "throws_for U t (fix_check_admin_access U t)"
  unfolding fix_check_admin_access_def
proof (induction t rule: length_induct)
  case (1 s)
  let ?sub = "re_sub (admin_pattern U) (replacer U)"
  have rep: "throws_for U (concat ps) (replacer U ps)" for ps
    by (simp add: replacer_def throws_for_response)
  show ?case
  proof (cases "re_match (admin_pattern U) s")
    case None
    then show ?thesis
    proof (cases s)
      case Nil
      with None show ?thesis by (simp add: throws_nil)
    next
      case (Cons c cs)
      with None 1 show ?thesis by (simp add: throws_copy)
    qed
  next
    case (Some ps)
    from re_match_sound[OF Some] obtain r where s: "s = concat ps @ r" by blast
    show ?thesis
    proof (cases "concat ps = []")
      case True
      have rn: "throws_for U [] (replacer U ps)"
        using rep[of ps] by (simp only: True)
      show ?thesis
      proof (cases s)
        case Nil
        with Some rn show ?thesis by simp
      next
        case (Cons c cs)
        with 1 have "throws_for U (c # cs) (c # ?sub cs)" by (simp add: throws_copy)
        from throws_for_append[OF rn this] have "throws_for U (c # cs) (replacer U ps @ c # ?sub cs)"
          by simp
        moreover have "?sub (c # cs) = replacer U ps @ c # ?sub cs"
          using Some True unfolding Cons by (simp del: concat_eq_Nil_conv)
        ultimately show ?thesis unfolding Cons by simp
      qed
    next
      case False
      have e: "?sub s = replacer U ps @ ?sub r"
        using Some False s by (rule re_sub_hit)
      have "length r < length s" using s False by simp
      with 1 have ih: "throws_for U r (?sub r)" by blast
      from throws_for_append[OF rep[of ps] ih] s e show ?thesis by simp
    qed
  qed
qed

section \<open>A block with the forbidden response\<close>

lemma re_sub_before: "nowhere_before p a r \<Longrightarrow> re_sub p f (a @ r) = a @ re_sub p f r"
  by (induction a) auto

lemma response_match_hit:
  assumes q: "q = 39 \<or> q = 34" and msg: "msg \<noteq> []" "list_all (\<lambda>c. c \<noteq> 39 \<and> c \<noteq> 34) msg"
    and d: "d \<noteq> []" "list_all (is_digit U) d"
  shows "re_match (response_pattern U)
       (cp ''return NextResponse.json({ error: '' @ [q] @ msg @ [q] @
          cp '' }, { status: '' @ d @ cp '' })'' @ r) =
     Some [cp ''return NextResponse.json({ error: '', [q], msg, [q],
           cp '' }, { status: '', d, cp '' })'']"
proof -
  let ?H = "cp ''return NextResponse.json({ error: ''"
  let ?T1 = "cp '' }, { status: ''"
  let ?T2 = "cp '' })''"
  let ?nq = "\<lambda>c. c \<noteq> 39 \<and> c \<noteq> (34::nat)"
  have tw: "takeWhile ?nq (msg @ [q] @ x) = msg" for x
    using msg(2) q by (auto simp: list_all_iff takeWhile_append2)
  have td: "takeWhile (is_digit U) (d @ ?T2 @ x) = d" for x
    using d(2) by (simp add: list_all_iff takeWhile_append2 cp_def is_digit_def)
  have t2h: "?T2 \<noteq> []" "\<not> is_digit U (hd ?T2)"
    by (simp_all add: cp_def is_digit_def)
  have m5: "match_here [Rep (is_digit U) 1 True, Lit ?T2] [?H, [q], msg, [q], ?T1] (d @ ?T2 @ r)
      = Some [?H, [q], msg, [q], ?T1, d, ?T2]"
    using match_rep_lit[of ?T2 "is_digit U" 1 "[]" "[?H, [q], msg, [q], ?T1]" "d @ ?T2 @ r"] t2h d(1)
    by (simp add: td Let_def Suc_le_eq)
  have m3: "match_here [Back 1, Lit ?T1, Rep (is_digit U) 1 True, Lit ?T2] [?H, [q], msg]
      ([q] @ ?T1 @ d @ ?T2 @ r) = Some [?H, [q], msg, [q], ?T1, d, ?T2]"
    using m5 by (simp add: Let_def del: match_here.simps(4))
  have m2: "match_here [Rep ?nq 1 True, Back 1, Lit ?T1, Rep (is_digit U) 1 True, Lit ?T2]
      [?H, [q]] (msg @ [q] @ ?T1 @ d @ ?T2 @ r) = Some [?H, [q], msg, [q], ?T1, d, ?T2]"
    using match_rep_back[OF q, of 1 "[?H, [q]]" 1 "[Lit ?T1, Rep (is_digit U) 1 True, Lit ?T2]"
        "msg @ [q] @ ?T1 @ d @ ?T2 @ r"] m3 msg(1) tw[of "?T1 @ d @ ?T2 @ r"]
    by (simp add: Let_def Suc_le_eq del: match_here.simps)
  show ?thesis
    unfolding re_match_def response_pattern_def
    using m2 q by (simp del: match_here.simps(4))
qed


lemma response_re_sub_hit:
  assumes "q = 39 \<or> q = 34" and "msg \<noteq> []" and "list_all (\<lambda>c. c \<noteq> 39 \<and> c \<noteq> 34) msg"
    and "d \<noteq> []" and "list_all (is_digit U) d"
  shows "re_sub (response_pattern U) throw_template
       (cp ''return NextResponse.json({ error: '' @ [q] @ msg @ [q] @
          cp '' }, { status: '' @ d @ cp '' })'' @ r) =
     cp ''throw new Error('' @ [q] @ msg @ [q] @ cp '')'' @
     re_sub (response_pattern U) throw_template r"
proof -
  let ?ps = "[cp ''return NextResponse.json({ error: '', [q], msg, [q],
           cp '' }, { status: '', d, cp '' })'']"
  have "re_sub (response_pattern U) throw_template
       (cp ''return NextResponse.json({ error: '' @ [q] @ msg @ [q] @
          cp '' }, { status: '' @ d @ cp '' })'' @ r) =
     throw_template ?ps @ re_sub (response_pattern U) throw_template r"
    by (rule re_sub_hit[OF response_match_hit[OF assms]]) (use assms(2) in simp_all)
  then show ?thesis by (simp add: throw_template_def)
qed

lemma admin_block_rewrite_any:
  assumes q: "q = 39 \<or> q = 34" and msg: "msg \<noteq> []" "list_all (\<lambda>c. c \<noteq> 39 \<and> c \<noteq> 34) msg"
    and d: "d \<noteq> []" "list_all (is_digit U) d"
    and blk: "map_option concat (re_match (admin_pattern U)
        (b0 @ (cp ''return NextResponse.json({ error: '' @ [q] @ msg @ [q] @
          cp '' }, { status: '' @ d @ cp '' })'') @ b1 @ post))
      = Some (b0 @ (cp ''return NextResponse.json({ error: '' @ [q] @ msg @ [q] @
          cp '' }, { status: '' @ d @ cp '' })'') @ b1)"
    and pre: "nowhere_before (admin_pattern U) pre
        (b0 @ (cp ''return NextResponse.json({ error: '' @ [q] @ msg @ [q] @
          cp '' }, { status: '' @ d @ cp '' })'') @ b1 @ post)"
    and b0: "nowhere_before (response_pattern U) b0
        ((cp ''return NextResponse.json({ error: '' @ [q] @ msg @ [q] @
          cp '' }, { status: '' @ d @ cp '' })'') @ b1)"
    and b1: "nowhere (response_pattern U) b1"
  shows "fix_check_admin_access U
      (pre @ b0 @ (cp ''return NextResponse.json({ error: '' @ [q] @ msg @ [q] @
          cp '' }, { status: '' @ d @ cp '' })'') @ b1 @ post)
    = pre @ b0 @ (cp ''throw new Error('' @ [q] @ msg @ [q] @ cp '')'') @ b1 @
      fix_check_admin_access U post"
proof -
  define ST where "ST = cp ''return NextResponse.json({ error: '' @ [q] @ msg @ [q] @
          cp '' }, { status: '' @ d @ cp '' })''"
  define TH where "TH = cp ''throw new Error('' @ [q] @ msg @ [q] @ cp '')''"
  have st: "re_sub (response_pattern U) throw_template (ST @ r) =
      TH @ re_sub (response_pattern U) throw_template r" for r
    using response_re_sub_hit[OF q msg d, of r] by (simp add: ST_def TH_def)
  from blk obtain ps where ps: "re_match (admin_pattern U) (b0 @ ST @ b1 @ post) = Some ps"
    and c: "concat ps = b0 @ ST @ b1"
    unfolding ST_def[symmetric] by auto
  have ne: "concat ps \<noteq> []" unfolding c by (simp add: ST_def cp_def)
  have r: "replacer U ps = b0 @ TH @ b1"
    unfolding replacer_def Let_def c
    using re_sub_before[OF b0, folded ST_def] st re_sub_nowhere[OF b1] by simp
  have "re_sub (admin_pattern U) (replacer U) (b0 @ ST @ b1 @ post) =
      replacer U ps @ re_sub (admin_pattern U) (replacer U) post"
    by (rule re_sub_hit[OF ps ne]) (simp add: c)
  then have "fix_check_admin_access U (pre @ b0 @ ST @ b1 @ post) =
      pre @ b0 @ TH @ b1 @ fix_check_admin_access U post"
    unfolding fix_check_admin_access_def
    using re_sub_before[OF pre, folded ST_def] r by simp
  then show ?thesis unfolding ST_def TH_def .
qed

lemma forbidden_statement:
  "cp ''return NextResponse.json({ error: '' @ [39] @ cp ''Forbidden'' @ [39] @
     cp '' }, { status: '' @ cp ''403'' @ cp '' })''
   = cp ''return NextResponse.json({ error: 'Forbidden' }, { status: 403 })''"
  "cp ''throw new Error('' @ [39] @ cp ''Forbidden'' @ [39] @ cp '')''
   = cp ''throw new Error('Forbidden')''"
  by (simp_all add: cp_def)

lemma admin_block_rewrite:
  assumes "map_option concat (re_match (admin_pattern U)
        (b0 @ cp ''return NextResponse.json({ error: 'Forbidden' }, { status: 403 })'' @ b1 @ post))
      = Some (b0 @ cp ''return NextResponse.json({ error: 'Forbidden' }, { status: 403 })'' @ b1)"
    and "nowhere_before (admin_pattern U) pre
        (b0 @ cp ''return NextResponse.json({ error: 'Forbidden' }, { status: 403 })'' @ b1 @ post)"
    and "nowhere (admin_pattern U) post"
    and "nowhere_before (response_pattern U) b0
        (cp ''return NextResponse.json({ error: 'Forbidden' }, { status: 403 })'' @ b1)"
    and "nowhere (response_pattern U) b1"
  shows "fix_check_admin_access U
      (pre @ b0 @ cp ''return NextResponse.json({ error: 'Forbidden' }, { status: 403 })'' @ b1 @ post)
    = pre @ b0 @ cp ''throw new Error('Forbidden')'' @ b1 @ post"
proof -
  have p: "fix_check_admin_access U post = post"
    using assms(3) by (simp add: fix_check_admin_access_def re_sub_nowhere)
  have "fix_check_admin_access U
      (pre @ b0 @ (cp ''return NextResponse.json({ error: '' @ [39] @ cp ''Forbidden'' @ [39] @
          cp '' }, { status: '' @ cp ''403'' @ cp '' })'') @ b1 @ post)
    = pre @ b0 @ (cp ''throw new Error('' @ [39] @ cp ''Forbidden'' @ [39] @ cp '')'') @ b1 @
      fix_check_admin_access U post"
    by (rule admin_block_rewrite_any)
      (use assms(1,2,4,5) in \<open>simp_all add: forbidden_statement\<close>,
       simp_all add: cp_def is_digit_def)
  then show ?thesis by (simp only: forbidden_statement p)
qed

section \<open>Texts without a response statement\<close>







section \<open>A sample block\<close>

lemma sample_block:
  "map_option concat (re_match (admin_pattern ascii_tables)
     (cp ''async function checkAdminAccess(req: Request): Promise<boolean> { const firestore = getFirebaseFirestore(); if (!firestore) { '' @
      cp ''return NextResponse.json({ error: 'Forbidden' }, { status: 403 })'' @
      cp ''; }'' @ cp '' return true; }''))
   = Some (cp ''async function checkAdminAccess(req: Request): Promise<boolean> { const firestore = getFirebaseFirestore(); if (!firestore) { '' @
      cp ''return NextResponse.json({ error: 'Forbidden' }, { status: 403 })'' @ cp ''; }'')"
  "nowhere_before (admin_pattern ascii_tables) (cp ''import x; '')
     (cp ''async function checkAdminAccess(req: Request): Promise<boolean> { const firestore = getFirebaseFirestore(); if (!firestore) { '' @
      cp ''return NextResponse.json({ error: 'Forbidden' }, { status: 403 })'' @
      cp ''; }'' @ cp '' return true; }'')"
  "nowhere (admin_pattern ascii_tables) (cp '' return true; }'')"
  "nowhere_before (response_pattern ascii_tables)
     (cp ''async function checkAdminAccess(req: Request): Promise<boolean> { const firestore = getFirebaseFirestore(); if (!firestore) { '')
     (cp ''return NextResponse.json({ error: 'Forbidden' }, { status: 403 })'' @ cp ''; }'')"
  "nowhere (response_pattern ascii_tables) (cp ''; }'')"
  by (simp_all add: eval_defs)

lemma sample_block_callbacks:
  "list_all (\<lambda>m. nowhere (callback_pattern ascii_tables m)
     (cp ''import x; '' @
      cp ''async function checkAdminAccess(req: Request): Promise<boolean> { const firestore = getFirebaseFirestore(); if (!firestore) { '' @
      cp ''throw new Error('Forbidden')'' @ cp ''; }'' @ cp '' return true; }'')) methods"
  by (simp add: eval_defs)



text \<open>
  C9, as the claim states it, fails: the pattern of \<open>fix_check_admin_access\<close> matches the
  whole block below, whose response has a second field after the message, and the block
  comes out unchanged: no error is thrown in place of the response.
\<close>

theorem matched_block_without_throw_counterexample:
  "map_option concat (re_match (admin_pattern ascii_tables) (cp ''async function checkAdminAccess(req: Request): Promise<boolean> { const firestore = getFirebaseFirestore(); if (!firestore) { return NextResponse.json({ error: 'Forbidden', code: 1 }, { status: 403 }); }''))
     = Some (cp ''async function checkAdminAccess(req: Request): Promise<boolean> { const firestore = getFirebaseFirestore(); if (!firestore) { return NextResponse.json({ error: 'Forbidden', code: 1 }, { status: 403 }); }'') \<and>
   fix_check_admin_access ascii_tables (cp ''async function checkAdminAccess(req: Request): Promise<boolean> { const firestore = getFirebaseFirestore(); if (!firestore) { return NextResponse.json({ error: 'Forbidden', code: 1 }, { status: 403 }); }'')
     = cp ''async function checkAdminAccess(req: Request): Promise<boolean> { const firestore = getFirebaseFirestore(); if (!firestore) { return NextResponse.json({ error: 'Forbidden', code: 1 }, { status: 403 }); }''"
  by (simp add: eval_defs)

text \<open>
  C9, amended. Let the pattern of \<open>fix_check_admin_access\<close> match the block
  \<open>b0 @ st @ b1\<close> at its position in \<open>pre @ b0 @ st @ b1 @ post\<close>, and nowhere before it,
  where \<open>st\<close> is a response statement
  \<open>return NextResponse.json({ error: q msg q }, { status: d })\<close> with \<open>q\<close> a single or
  double quote, \<open>msg\<close> a non-empty message without quotes and \<open>d\<close> a non-empty run of
  digits, and the response pattern matches nowhere else in the block. Then the fix puts
  \<open>throw new Error(q msg q)\<close>, with the same quote and the same message, in the place
  of \<open>st\<close>, keeps the rest of the block and the text before it, and goes on with the
  text after the block. On every text, whatever the fix changes is such a replacement.
\<close>

theorem matched_block_throws_same_message:
  assumes "q = 39 \<or> q = 34" and "msg \<noteq> []" and "list_all (\<lambda>c. c \<noteq> 39 \<and> c \<noteq> 34) msg"
    and "d \<noteq> []" and "list_all (is_digit U) d"
    and "map_option concat (re_match (admin_pattern U)
        (b0 @ (cp ''return NextResponse.json({ error: '' @ [q] @ msg @ [q] @
          cp '' }, { status: '' @ d @ cp '' })'') @ b1 @ post))
      = Some (b0 @ (cp ''return NextResponse.json({ error: '' @ [q] @ msg @ [q] @
          cp '' }, { status: '' @ d @ cp '' })'') @ b1)"
    and "nowhere_before (admin_pattern U) pre
        (b0 @ (cp ''return NextResponse.json({ error: '' @ [q] @ msg @ [q] @
          cp '' }, { status: '' @ d @ cp '' })'') @ b1 @ post)"
    and "nowhere_before (response_pattern U) b0
        ((cp ''return NextResponse.json({ error: '' @ [q] @ msg @ [q] @
          cp '' }, { status: '' @ d @ cp '' })'') @ b1)"
    and "nowhere (response_pattern U) b1"
  shows "fix_check_admin_access U
      (pre @ b0 @ (cp ''return NextResponse.json({ error: '' @ [q] @ msg @ [q] @
          cp '' }, { status: '' @ d @ cp '' })'') @ b1 @ post)
    = pre @ b0 @ (cp ''throw new Error('' @ [q] @ msg @ [q] @ cp '')'') @ b1 @
      fix_check_admin_access U post \<and>
    throws_for U t (fix_check_admin_access U t)"
  using admin_block_rewrite_any[OF assms] throws_for_admin by simp

theorem matched_block_throws_same_message_witness:
  "fix_check_admin_access ascii_tables
     (cp ''import x; '' @
      cp ''async function checkAdminAccess(req: Request): Promise<boolean> { const firestore = getFirebaseFirestore(); if (!firestore) { '' @
      (cp ''return NextResponse.json({ error: '' @ [39] @ cp ''Forbidden'' @ [39] @
          cp '' }, { status: '' @ cp ''403'' @ cp '' })'') @
      cp ''; }'' @ cp '' return true; }'')
   = cp ''import x; '' @
      cp ''async function checkAdminAccess(req: Request): Promise<boolean> { const firestore = getFirebaseFirestore(); if (!firestore) { '' @
      (cp ''throw new Error('' @ [39] @ cp ''Forbidden'' @ [39] @ cp '')'') @
      cp ''; }'' @ cp '' return true; }''"
proof -
  have p: "fix_check_admin_access ascii_tables (cp '' return true; }'') = cp '' return true; }''"
    using sample_block(3) by (simp add: fix_check_admin_access_def re_sub_nowhere)
  have "fix_check_admin_access ascii_tables
     (cp ''import x; '' @
      cp ''async function checkAdminAccess(req: Request): Promise<boolean> { const firestore = getFirebaseFirestore(); if (!firestore) { '' @
      (cp ''return NextResponse.json({ error: '' @ [39] @ cp ''Forbidden'' @ [39] @
          cp '' }, { status: '' @ cp ''403'' @ cp '' })'') @
      cp ''; }'' @ cp '' return true; }'')
   = cp ''import x; '' @
      cp ''async function checkAdminAccess(req: Request): Promise<boolean> { const firestore = getFirebaseFirestore(); if (!firestore) { '' @
      (cp ''throw new Error('' @ [39] @ cp ''Forbidden'' @ [39] @ cp '')'') @
      cp ''; }'' @
      fix_check_admin_access ascii_tables (cp '' return true; }'')"
    by (rule matched_block_throws_same_message [THEN conjunct1])
      (use sample_block(1,2,4,5) in \<open>simp_all only: forbidden_statement\<close>,
       simp_all add: cp_def is_digit_def)
  then show ?thesis by (simp only: p)
qed

text \<open>
  C4, as the claim states it, fails where the text holds something else that the fixes
  rewrite: below, the block is followed by a callback, and the output is not the input
  with only the response statement replaced.
\<close>

theorem admin_block_with_callback_counterexample:
  "apply_fixes ascii_tables
     (cp ''async function checkAdminAccess(req: Request): Promise<boolean> { const firestore = getFirebaseFirestore(); if (!firestore) { return NextResponse.json({ error: 'Forbidden' }, { status: 403 }); } return ids.map((x) => x); }'')
   = cp ''async function checkAdminAccess(req: Request): Promise<boolean> { const firestore = getFirebaseFirestore(); if (!firestore) { throw new Error('Forbidden'); } return ids.map((x: any) => x); }'' \<and>
   cp ''async function checkAdminAccess(req: Request): Promise<boolean> { const firestore = getFirebaseFirestore(); if (!firestore) { throw new Error('Forbidden'); } return ids.map((x: any) => x); }''
   \<noteq> cp ''async function checkAdminAccess(req: Request): Promise<boolean> { const firestore = getFirebaseFirestore(); if (!firestore) { throw new Error('Forbidden'); } return ids.map((x) => x); }''"
proof -
  have "apply_fixes ascii_tables
     (cp ''async function checkAdminAccess(req: Request): Promise<boolean> { const firestore = getFirebaseFirestore(); if (!firestore) { return NextResponse.json({ error: 'Forbidden' }, { status: 403 }); } return ids.map((x) => x); }'')
   = cp ''async function checkAdminAccess(req: Request): Promise<boolean> { const firestore = getFirebaseFirestore(); if (!firestore) { throw new Error('Forbidden'); } return ids.map((x: any) => x); }''"
    by (simp add: apply_fixes_def eval_defs)
  then show ?thesis by (simp add: cp_def)
qed

text \<open>
  C4, amended. Let a text be \<open>pre @ b0 @ st @ b1 @ post\<close>, where \<open>st\<close> is the statement
  \<open>return NextResponse.json({ error: 'Forbidden' }, { status: 403 })\<close>, the pattern of
  \<open>fix_check_admin_access\<close> matches the block \<open>b0 @ st @ b1\<close> at its position, and the
  patterns match nothing else: the block pattern matches nowhere in \<open>pre\<close> and nowhere in
  \<open>post\<close>, the response pattern matches nowhere else in the block, and no callback
  pattern matches in the result. Then the fixes replace \<open>st\<close> by
  \<open>throw new Error('Forbidden')\<close> and keep every other character.
\<close>

theorem apply_fixes_rewrites_forbidden_block:
  assumes "map_option concat (re_match (admin_pattern U)
        (b0 @ cp ''return NextResponse.json({ error: 'Forbidden' }, { status: 403 })'' @ b1 @ post))
      = Some (b0 @ cp ''return NextResponse.json({ error: 'Forbidden' }, { status: 403 })'' @ b1)"
    and "nowhere_before (admin_pattern U) pre
        (b0 @ cp ''return NextResponse.json({ error: 'Forbidden' }, { status: 403 })'' @ b1 @ post)"
    and "nowhere (admin_pattern U) post"
    and "nowhere_before (response_pattern U) b0
        (cp ''return NextResponse.json({ error: 'Forbidden' }, { status: 403 })'' @ b1)"
    and "nowhere (response_pattern U) b1"
    and "list_all (\<lambda>m. nowhere (callback_pattern U m)
        (pre @ b0 @ cp ''throw new Error('Forbidden')'' @ b1 @ post)) methods"
  shows "apply_fixes U
      (pre @ b0 @ cp ''return NextResponse.json({ error: 'Forbidden' }, { status: 403 })'' @ b1 @ post)
    = pre @ b0 @ cp ''throw new Error('Forbidden')'' @ b1 @ post"
proof -
  let ?TH = "cp ''throw new Error('Forbidden')''"
  have b: "fix_implicit_any_params U (pre @ b0 @ ?TH @ b1 @ post) = pre @ b0 @ ?TH @ b1 @ post"
    unfolding fix_implicit_any_params_def
    by (rule foldl_re_sub_id)
      (use assms(6) in \<open>auto simp: patterns_def re_sub_nowhere list_all_iff\<close>)
  show ?thesis
    by (simp add: apply_fixes_def admin_block_rewrite[OF assms(1-5)] b)
qed

theorem apply_fixes_rewrites_forbidden_block_witness:
  "apply_fixes ascii_tables
     (cp ''import x; '' @
      cp ''async function checkAdminAccess(req: Request): Promise<boolean> { const firestore = getFirebaseFirestore(); if (!firestore) { '' @
      cp ''return NextResponse.json({ error: 'Forbidden' }, { status: 403 })'' @
      cp ''; }'' @ cp '' return true; }'')
   = cp ''import x; '' @
      cp ''async function checkAdminAccess(req: Request): Promise<boolean> { const firestore = getFirebaseFirestore(); if (!firestore) { '' @
      cp ''throw new Error('Forbidden')'' @
      cp ''; }'' @ cp '' return true; }''"
  by (rule apply_fixes_rewrites_forbidden_block [OF sample_block sample_block_callbacks])

section \<open>Applying the fixes twice\<close>




section \<open>Overlapping pieces of a text\<close>

lemma overlap_cases:
  assumes "us @ r = Z @ b"
  shows "prefix us Z \<or> prefix Z us"
  using assms by (auto simp: append_eq_append_conv2 prefix_def)

lemma split_cases:
  assumes "A @ B = u @ v"
  shows "(\<exists>a2. a2 \<noteq> [] \<and> suffix a2 A \<and> v = a2 @ B) \<or> suffix v B"
  using assms by (auto simp: append_eq_append_conv2 suffix_def)

lemma prefix_append_cases:
  "prefix Z (A @ B) \<Longrightarrow> prefix Z A \<or> (\<exists>z. Z = A @ z \<and> prefix z B)"
  by (simp add: prefix_append)

lemma suffix_Cons_cases: "suffix us (c # x) \<Longrightarrow> us = c # x \<or> suffix us x"
  by (auto simp: suffix_Cons)

lemma last_in_superset: "Z \<noteq> [] \<Longrightarrow> set Z \<subseteq> A \<Longrightarrow> last Z \<in> A"
  using last_in_set by blast

lemma hd_in_superset: "Z \<noteq> [] \<Longrightarrow> set Z \<subseteq> A \<Longrightarrow> hd Z \<in> A"
  using hd_in_set by blast

lemma hd_overlap: "us @ xs = Z @ b \<Longrightarrow> us \<noteq> [] \<Longrightarrow> Z \<noteq> [] \<Longrightarrow> hd us = hd Z"
  by (cases us; cases Z) auto

section \<open>The response rewrite around a place\<close>

lemma throw_edits_refl: "throw_edits U xs xs"
  by (induction xs) (auto intro: throw_edits.intros)

lemma throw_edits_copies: "throw_edits U xs ys \<Longrightarrow> throw_edits U (v @ xs) (v @ ys)"
  by (induction v) (auto intro: throw_edits.intros)

lemma throw_edits_stmt:
  assumes "throw_edits U xs ys" and q: "q = 39 \<or> q = 34"
    and d: "d \<noteq> []" "list_all (is_digit U) d"
  shows "throw_edits U
       (cp ''return NextResponse.json({ error: '' @ [q] @ msg @ [q] @
          cp '' }, { status: '' @ d @ cp '' })'' @ xs)
       (cp ''throw new Error('' @ [q] @ msg @ [q] @ cp '')'' @ ys)"
proof -
  have "throw_edits U ([q] @ cp '' }, { status: '' @ d @ cp '' })'' @ xs) ([q] @ cp '')'' @ ys)"
    using assms(1) q d by (rule edits_tail)
  then have "throw_edits U (msg @ [q] @ cp '' }, { status: '' @ d @ cp '' })'' @ xs)
      (msg @ [q] @ cp '')'' @ ys)"
    by (rule throw_edits_copies)
  then show ?thesis using q by (rule edits_head)
qed

lemma throws_for_imp_edits: "throws_for U xs ys \<Longrightarrow> throw_edits U xs ys"
proof (induction rule: throws_for.induct)
  case throws_nil
  show ?case by (rule edits_nil)
next
  case (throws_copy xs ys c)
  from throws_copy.IH show ?case by (rule edits_copy)
next
  case (throws_stmt xs ys q msg d)
  from throws_stmt.IH throws_stmt.hyps(2,5,6) show ?case by (rule throw_edits_stmt)
qed

lemma throws_for_prefix_split:
  assumes "throws_for U xs ys" and "xs = v @ b" and "39 \<notin> set v" and "34 \<notin> set v"
    and "v = [] \<or> last v \<notin> set (cp ''return NextResponse.json({ error: '')"
  shows "\<exists>b1. ys = v @ b1 \<and> throws_for U b b1"
  using assms
proof (induction arbitrary: v rule: throws_for.induct)
  case throws_nil
  then show ?case by (auto intro: throws_for.throws_nil)
next
  case (throws_copy xs ys c)
  show ?case
  proof (cases v)
    case Nil
    with throws_copy.prems(1) have "b = c # xs" by simp
    then have "throws_for U b (c # ys)"
      using throws_copy.hyps by (auto intro: throws_for.throws_copy)
    with Nil show ?thesis by simp
  next
    case (Cons c' v')
    with throws_copy.prems(1) have c: "c' = c" and p: "xs = v' @ b" by auto
    have l: "v' = [] \<or> last v' \<notin> set (cp ''return NextResponse.json({ error: '')"
      using throws_copy.prems(4) Cons by (cases v') auto
    have "39 \<notin> set v'" "34 \<notin> set v'" using throws_copy.prems(2,3) Cons by auto
    from throws_copy.IH[OF p this l] obtain b1 where "ys = v' @ b1" "throws_for U b b1"
      by blast
    then show ?thesis using c Cons by simp
  qed
next
  case (throws_stmt xs ys q msg d)
  let ?H = "cp ''return NextResponse.json({ error: ''"
  let ?ST = "?H @ [q] @ msg @ [q] @ cp '' }, { status: '' @ d @ cp '' })''"
  show ?case
  proof (cases "v = []")
    case True
    with throws_stmt.prems(1) have b: "b = ?ST @ xs" by simp
    have "throws_for U b (cp ''throw new Error('' @ [q] @ msg @ [q] @ cp '')'' @ ys)"
      unfolding b using throws_for.throws_stmt[OF throws_stmt.hyps] by simp
    with True show ?thesis by simp
  next
    case False
    with throws_stmt.prems(4) have l: "last v \<notin> set ?H" by simp
    from throws_stmt.prems(1) have "prefix v (?H @ ([q] @ msg @ [q] @ cp '' }, { status: '' @ d @ cp '' })'' @ xs))"
      by (simp add: prefix_def)
    from prefix_append_cases[OF this] consider "prefix v ?H"
      | us where "v = ?H @ us" "prefix us ([q] @ msg @ [q] @ cp '' }, { status: '' @ d @ cp '' })'' @ xs)"
      by blast
    then have False
    proof cases
      case 1
      then have "set v \<subseteq> set ?H" by (rule set_mono_prefix)
      with False l show ?thesis using last_in_set by blast
    next
      case 2
      show ?thesis
      proof (cases us)
        case Nil
        with 2(1) l show ?thesis by (simp add: cp_def)
      next
        case (Cons c us')
        with 2 have "q \<in> set v" by auto
        with throws_stmt.hyps(2) throws_stmt.prems(2,3) show ?thesis by auto
      qed
    qed
    then show ?thesis ..
  qed
qed

lemma throws_for_split:
  assumes "throws_for U xs ys" and "xs = a @ Z @ b"
    and Z: "Z \<noteq> []" "39 \<notin> set Z" "34 \<notin> set Z"
    and lst: "last Z \<notin> set (cp ''return NextResponse.json({ error: '')"
    and hd: "hd Z \<notin> set (cp '' }, { status: '')" "hd Z \<notin> set (cp '' })'')" "\<not> is_digit U (hd Z)"
  shows "\<exists>a1 b1. ys = a1 @ Z @ b1 \<and> throw_edits U a a1 \<and> throw_edits U b b1"
  using assms(1,2)
proof (induction arbitrary: a rule: throws_for.induct)
  case throws_nil
  with Z(1) show ?case by simp
next
  case (throws_copy xs ys c)
  show ?case
  proof (cases a)
    case Nil
    with throws_copy.prems Z(1) obtain v where v: "Z = c # v" "xs = v @ b" by (cases Z) auto
    have l: "v = [] \<or> last v \<notin> set (cp ''return NextResponse.json({ error: '')"
      using lst v(1) by (cases v) auto
    have "39 \<notin> set v" "34 \<notin> set v" using Z(2,3) v(1) by auto
    from throws_for_prefix_split[OF throws_copy.hyps v(2) this l]
    obtain b1 where b1: "ys = v @ b1" "throws_for U b b1" by blast
    have "c # ys = [] @ Z @ b1 \<and> throw_edits U [] [] \<and> throw_edits U b b1"
      using b1 v(1) by (simp add: edits_nil throws_for_imp_edits)
    with Nil show ?thesis by blast
  next
    case (Cons c' a')
    with throws_copy.prems have c: "c' = c" and x: "xs = a' @ Z @ b" by auto
    from throws_copy.IH[OF x] obtain a1 b1 where
      e: "ys = a1 @ Z @ b1" "throw_edits U a' a1" "throw_edits U b b1" by blast
    have "c # ys = (c # a1) @ Z @ b1 \<and> throw_edits U a (c # a1) \<and> throw_edits U b b1"
      using e c Cons by (simp add: edits_copy)
    then show ?thesis by blast
  qed
next
  case (throws_stmt xs ys q msg d)
  let ?H = "cp ''return NextResponse.json({ error: ''"
  let ?T = "cp '' }, { status: '' @ d @ cp '' })''"
  let ?E = "cp ''throw new Error('' @ [q] @ msg @ [q] @ cp '')''"
  have qZ: "q \<notin> set Z" using throws_stmt.hyps(2) Z(2,3) by auto
  have exs: "throw_edits U xs ys" using throws_stmt.hyps(1) by (rule throws_for_imp_edits)
  from throws_stmt.prems have "(?H @ [q] @ msg @ [q] @ ?T) @ xs = a @ (Z @ b)" by simp
  then consider us where "a = (?H @ [q] @ msg @ [q] @ ?T) @ us" "xs = us @ Z @ b"
    | us where "?H @ [q] @ msg @ [q] @ ?T = a @ us" "us @ xs = Z @ b" "us \<noteq> []"
    unfolding append_eq_append_conv2[of _ xs a] by (metis append_Nil2 append_Nil)
  then show ?case
  proof cases
    case 1
    from throws_stmt.IH[OF 1(2)] obtain a1 b1 where
      e: "ys = a1 @ Z @ b1" "throw_edits U us a1" "throw_edits U b b1" by blast
    have "throw_edits U (?H @ [q] @ msg @ [q] @ cp '' }, { status: '' @ d @ cp '' })'' @ us)
        (cp ''throw new Error('' @ [q] @ msg @ [q] @ cp '')'' @ a1)"
      using e(2) throws_stmt.hyps(2,5,6) by (rule throw_edits_stmt)
    then have "throw_edits U a (?E @ a1)" using 1(1) by simp
    with e(1,3) show ?thesis
      by (intro exI[of _ "?E @ a1"] exI[of _ b1]) simp
  next
    case 1: 2
    have hdus: "hd us = hd Z" using 1(2,3) Z(1) by (rule hd_overlap)
    from overlap_cases[OF 1(2)] have ov: "prefix us Z \<or> prefix Z us" .
    from 1(1) have "?H @ ([q] @ msg @ [q] @ ?T) = a @ us" by simp
    from split_cases[OF this] consider a2 where "a2 \<noteq> []" "suffix a2 ?H" "us = a2 @ [q] @ msg @ [q] @ ?T"
      | "suffix us ([q] @ msg @ [q] @ ?T)" by auto
    then have "\<exists>m1 m2. msg = m1 @ Z @ m2 \<and> us = Z @ m2 @ [q] @ ?T"
    proof cases
      case 1
      have a2H: "set a2 \<subseteq> set ?H" using 1(2) by (rule set_mono_suffix)
      from ov have False
      proof
        assume "prefix us Z"
        then have "set us \<subseteq> set Z" by (rule set_mono_prefix)
        moreover have "q \<in> set us" unfolding 1(3) by simp
        ultimately show ?thesis using qZ by blast
      next
        assume "prefix Z us"
        then have "prefix Z (a2 @ ([q] @ msg @ [q] @ ?T))" unfolding 1(3) .
        from prefix_append_cases[OF this]
        consider "prefix Z a2" | z2 where "Z = a2 @ z2" "prefix z2 ([q] @ msg @ [q] @ ?T)"
          by blast
        then show ?thesis
        proof cases
          case 1
          then have "set Z \<subseteq> set a2" by (rule set_mono_prefix)
          with a2H have "set Z \<subseteq> set ?H" by simp
          from last_in_superset[OF Z(1) this] lst show ?thesis by simp
        next
          case 2
          show ?thesis
          proof (cases z2)
            case Nil
            with 2(1) a2H have "set Z \<subseteq> set ?H" by simp
            from last_in_superset[OF Z(1) this] lst show ?thesis by simp
          next
            case (Cons c z2')
            with 2(2) have "c = q" by simp
            with 2(1) Cons qZ show ?thesis by simp
          qed
        qed
      qed
      then show ?thesis ..
    next
      case 2
      then have "suffix us (q # (msg @ [q] @ ?T))" by simp
      from suffix_Cons_cases[OF this]
      consider "us = q # (msg @ [q] @ ?T)" | "suffix us (msg @ [q] @ ?T)"
        by blast
      then show ?thesis
      proof cases
        case 1
        with hdus have "hd Z = q" by simp
        with qZ Z(1) show ?thesis using hd_in_set by blast
      next
        case 2
        then obtain a3 where "msg @ ([q] @ ?T) = a3 @ us" by (auto simp: suffix_def)
        from split_cases[OF this] consider m2 where "m2 \<noteq> []" "suffix m2 msg" "us = m2 @ [q] @ ?T"
          | "suffix us ([q] @ ?T)" by auto
        then show ?thesis
        proof cases
          case 1
          have "prefix Z m2"
          proof -
            from ov show ?thesis
            proof
              assume "prefix us Z"
              then have "set us \<subseteq> set Z" by (rule set_mono_prefix)
              moreover have "q \<in> set us" unfolding 1(3) by simp
              ultimately show ?thesis using qZ by blast
            next
              assume "prefix Z us"
              then have "prefix Z (m2 @ ([q] @ ?T))" unfolding 1(3) .
              from prefix_append_cases[OF this]
              consider "prefix Z m2" | z2 where "Z = m2 @ z2" "prefix z2 ([q] @ ?T)"
                by blast
              then show ?thesis
              proof cases
                case 1
                then show ?thesis .
              next
                case 2
                show ?thesis
                proof (cases z2)
                  case Nil
                  with 2(1) show ?thesis by simp
                next
                  case (Cons c z2')
                  with 2(2) have "c = q" by simp
                  with 2(1) Cons qZ show ?thesis by simp
                qed
              qed
            qed
          qed
          then obtain m2' where m2': "m2 = Z @ m2'" by (auto simp: prefix_def)
          from 1(2) obtain m1 where "msg = m1 @ m2" by (auto simp: suffix_def)
          with m2' 1(3) have "msg = m1 @ Z @ m2' \<and> us = Z @ m2' @ [q] @ ?T" by simp
          then show ?thesis by blast
        next
          case 2
          then have "suffix us (q # ?T)" by simp
          from suffix_Cons_cases[OF this] consider "us = q # ?T" | "suffix us ?T"
            by blast
          then show ?thesis
          proof cases
            case 1
            with hdus have "hd Z = q" by simp
            with qZ Z(1) show ?thesis using hd_in_set by blast
          next
            case 2
            then have "set us \<subseteq> set ?T" by (rule set_mono_suffix)
            from hd_in_superset[OF \<open>us \<noteq> []\<close> this] have "hd Z \<in> set ?T" using hdus by simp
            with hd throws_stmt.hyps(6) show ?thesis by (auto simp: list_all_iff)
          qed
        qed
      qed
    qed
    then obtain m1 m2 where msg: "msg = m1 @ Z @ m2" and us: "us = Z @ m2 @ [q] @ ?T" by blast
    have "(?H @ [q] @ m1) @ us = a @ us" using 1(1) msg us by simp
    then have a: "a = ?H @ [q] @ m1" by simp
    have "Z @ (m2 @ [q] @ ?T @ xs) = Z @ b" using 1(2) us by simp
    then have b: "b = m2 @ [q] @ cp '' }, { status: '' @ d @ cp '' })'' @ xs" by simp
    have ea: "throw_edits U a (cp ''throw new Error('' @ [q] @ m1)"
      unfolding a using throw_edits_refl[of U m1] throws_stmt.hyps(2) by (rule edits_head)
    have "throw_edits U ([q] @ cp '' }, { status: '' @ d @ cp '' })'' @ xs) ([q] @ cp '')'' @ ys)"
      using exs throws_stmt.hyps(2,5,6) by (rule edits_tail)
    then have eb: "throw_edits U b (m2 @ [q] @ cp '')'' @ ys)"
      unfolding b by (rule throw_edits_copies)
    from ea eb msg show ?thesis
      by (intro exI[of _ "cp ''throw new Error('' @ [q] @ m1"] exI[of _ "m2 @ [q] @ cp '')'' @ ys"])
        simp
  qed
qed

lemma fix_check_admin_access_split:
  assumes "Z \<noteq> []" "39 \<notin> set Z" "34 \<notin> set Z"
    and "last Z \<notin> set (cp ''return NextResponse.json({ error: '')"
    and "hd Z \<notin> set (cp '' }, { status: '')" "hd Z \<notin> set (cp '' })'')" "\<not> is_digit U (hd Z)"
  shows "\<exists>a b. fix_check_admin_access U (pre @ Z @ post) = a @ Z @ b \<and>
     throw_edits U pre a \<and> throw_edits U post b"
  using throws_for_split[OF throws_for_admin refl assms] .

section \<open>A substitution around a place\<close>

lemma re_sub_append_aux:
  assumes empty: "re_match p [] = None"
    and within: "\<And>v ps. suffix v a \<Longrightarrow> v \<noteq> [] \<Longrightarrow> re_match p (v @ r) = Some ps \<Longrightarrow>
        prefix (concat ps) v \<and> re_match p v = Some ps"
    and none: "\<And>v. suffix v a \<Longrightarrow> v \<noteq> [] \<Longrightarrow> re_match p (v @ r) = None \<Longrightarrow>
        re_match p v = None"
  shows "suffix v a \<Longrightarrow> re_sub p f (v @ r) = re_sub p f v @ re_sub p f r"
proof (induction v rule: length_induct)
  case (1 v)
  have sv: "suffix v a" using 1(2) .
  have ih: "re_sub p f (u @ r) = re_sub p f u @ re_sub p f r"
    if "length u < length v" "suffix u a" for u
    using 1(1) that by blast
  show ?case
  proof (cases v)
    case Nil
    have "re_sub p f [] = []" using empty by simp
    then show ?thesis unfolding Nil by simp
  next
    case (Cons c cs)
    have ne: "v \<noteq> []" using Cons by simp
    have scs: "suffix cs a" using sv unfolding Cons by (rule suffix_ConsD)
    have ih_cs: "re_sub p f (cs @ r) = re_sub p f cs @ re_sub p f r"
      by (rule ih) (simp add: Cons, rule scs)
    show ?thesis
    proof (cases "re_match p (v @ r)")
      case None
      have nv: "re_match p v = None" using sv ne None by (rule none)
      have "re_sub p f (c # (cs @ r)) = c # re_sub p f (cs @ r)"
        using None unfolding Cons by simp
      moreover have "re_sub p f (c # cs) = c # re_sub p f cs"
        using nv unfolding Cons by simp
      ultimately show ?thesis unfolding Cons by (simp only: ih_cs append_Cons)
    next
      case (Some ps)
      from within[OF sv ne Some] have pre: "prefix (concat ps) v" and mv: "re_match p v = Some ps"
        by simp_all
      show ?thesis
      proof (cases "concat ps = []")
        case True
        have "re_sub p f (c # (cs @ r)) = f ps @ c # re_sub p f (cs @ r)"
          using Some True unfolding Cons by (simp del: concat_eq_Nil_conv)
        moreover have "re_sub p f (c # cs) = f ps @ c # re_sub p f cs"
          using mv True unfolding Cons by (simp del: concat_eq_Nil_conv)
        ultimately show ?thesis unfolding Cons by (simp only: ih_cs append_Cons append_assoc)
      next
        case False
        from pre obtain v' where v': "v = concat ps @ v'" by (auto simp: prefix_def)
        have "suffix v' v" unfolding v' by (rule suffixI) simp
        then have "suffix v' a" using sv by (rule suffix_order.trans)
        moreover have "length v' < length v" using v' False by simp
        ultimately have ih': "re_sub p f (v' @ r) = re_sub p f v' @ re_sub p f r"
          using ih by blast
        have "v @ r = concat ps @ (v' @ r)" using v' by simp
        with Some False have "re_sub p f (v @ r) = f ps @ re_sub p f (v' @ r)"
          by (rule re_sub_hit)
        moreover have "re_sub p f v = f ps @ re_sub p f v'"
          using mv False v' by (rule re_sub_hit)
        ultimately show ?thesis by (simp only: ih' append_assoc)
      qed
    qed
  qed
qed

lemma re_sub_append:
  assumes "re_match p [] = None"
    and "\<And>v ps. suffix v a \<Longrightarrow> v \<noteq> [] \<Longrightarrow> re_match p (v @ r) = Some ps \<Longrightarrow>
        prefix (concat ps) v \<and> re_match p v = Some ps"
    and "\<And>v. suffix v a \<Longrightarrow> v \<noteq> [] \<Longrightarrow> re_match p (v @ r) = None \<Longrightarrow>
        re_match p v = None"
  shows "re_sub p f (a @ r) = re_sub p f a @ re_sub p f r"
  by (rule re_sub_append_aux[OF assms]) (assumption | rule suffix_order.refl)+

section \<open>The callback fix around a place\<close>

lemma callback_no_match_hd:
  assumes "m \<in> set methods" and "v \<noteq> []" and "hd v \<noteq> 46"
  shows "re_match (callback_pattern U m) (v @ r) = None"
proof (rule ccontr)
  assume a: "re_match (callback_pattern U m) (v @ r) \<noteq> None"
  obtain c v' where v: "v = c # v'" using assms(2) by (cases v) auto
  from a have "c = 46" unfolding v by (simp add: callback_match_hd[OF assms(1)])
  with assms(3) v show False by simp
qed

lemma callback_match_text:
  assumes "m \<in> set methods" and "re_match (callback_pattern U m) s = Some ps"
  shows "\<exists>x. concat ps = 46 # x \<and> 46 \<notin> set x \<and> x \<noteq> [] \<and> last x = 62"
proof -
  let ?w = "takeWhile (is_word U) (drop (length m) s)"
  from assms(2) have ps: "ps = [cp m, ?w, cp '') =>'']"
    by (auto simp: callback_match Let_def split: if_splits)
  from methods_shape[OF assms(1)] obtain t where t: "cp m = 46 # t" "46 \<notin> set t" by blast
  have w: "46 \<notin> set ?w" by (auto dest!: set_takeWhileD simp: is_word_def)
  show ?thesis
    by (rule exI[of _ "t @ ?w @ cp '') =>''"]) (use t w in \<open>simp add: ps cp_def\<close>)
qed

lemma callback_across:
  assumes m: "m \<in> set methods" and ps: "re_match (callback_pattern U m) s = Some ps"
    and ab: "concat ps = a @ b" "a \<noteq> []" "b \<noteq> []"
    and L: "46 \<notin> set L" "62 \<notin> set L"
  shows "\<not> prefix b (L @ 46 # Z') \<and> \<not> prefix (L @ 46 # Z') b"
proof -
  from callback_match_text[OF m ps] obtain x where
    x: "concat ps = 46 # x" "46 \<notin> set x" "x \<noteq> []" "last x = 62" by blast
  from ab(1,2) x(1) obtain a' where "a = 46 # a'" "x = a' @ b"
    by (cases a) auto
  then have b: "46 \<notin> set b" "last b = 62" using x ab(3) by auto
  have "\<not> prefix (L @ 46 # Z') b"
  proof
    assume "prefix (L @ 46 # Z') b"
    then have "set (L @ 46 # Z') \<subseteq> set b" by (auto simp: prefix_def)
    with b(1) show False by auto
  qed
  moreover have "\<not> prefix b (L @ 46 # Z')"
  proof
    assume "prefix b (L @ 46 # Z')"
    then consider "prefix b L" | us where "b = L @ us" "prefix us (46 # Z')"
      by (auto simp: prefix_append)
    then show False
    proof cases
      case 1
      then have "last b \<in> set L" using ab(3)
        by (metis last_in_set prefix_def set_append UnI1 last_appendL)
      with b(2) L(2) show False by simp
    next
      case 2
      show False
      proof (cases us)
        case Nil
        with 2 have "last b \<in> set L" using ab(3) by auto
        with b(2) L(2) show False by simp
      next
        case (Cons c us')
        with 2 have "46 \<in> set b" by auto
        with b(1) show False by simp
      qed
    qed
  qed
  ultimately show ?thesis by simp
qed

lemma callback_inside:
  assumes m: "m \<in> set methods" and m': "m' \<in> set methods"
    and L: "46 \<notin> set L" and w: "w \<noteq> []" "\<forall>c \<in> set w. is_word U c"
    and mid: "mid = cp '') =>'' \<and> m' \<noteq> m \<or> mid = cp '': any) =>''"
    and R: "\<And>u v r. R = u @ v \<Longrightarrow> v \<noteq> [] \<Longrightarrow> re_match (callback_pattern U m') (v @ r) = None"
    and Z: "L @ cp m @ w @ mid @ R = u @ v" and v: "v \<noteq> []"
  shows "re_match (callback_pattern U m') (v @ r) = None"
proof -
  from methods_shape[OF m] obtain t where t: "cp m = 46 # t" "46 \<notin> set t" by blast
  let ?X = "cp m @ w @ mid"
  have nd: "46 \<notin> set (t @ w @ mid)"
    using t(2) w(2) mid by (auto simp: cp_def is_word_def)
  from Z have "L @ (?X @ R) = u @ v" by simp
  from split_cases[OF this] consider a2 where "a2 \<noteq> []" "suffix a2 L" "v = a2 @ ?X @ R"
    | "suffix v (?X @ R)" by auto
  then show ?thesis
  proof cases
    case 1
    then have "hd v \<in> set L" by (auto simp: suffix_def hd_append)
    with L have "hd v \<noteq> 46" by auto
    with v show ?thesis by (intro callback_no_match_hd[OF m']) 
  next
    case 2
    then obtain u2 where "?X @ R = u2 @ v" by (auto simp: suffix_def)
    from split_cases[OF this] consider x2 where "x2 \<noteq> []" "suffix x2 ?X" "v = x2 @ R"
      | "suffix v R" by auto
    then show ?thesis
    proof cases
      case 2
      then obtain u3 where "R = u3 @ v" by (auto simp: suffix_def)
      from R[OF this v] show ?thesis .
    next
      case 1
      from 1(2) have "x2 = ?X \<or> suffix x2 (t @ w @ mid)"
        unfolding t by (simp add: suffix_Cons)
      then show ?thesis
      proof
        assume "suffix x2 (t @ w @ mid)"
        then have "set x2 \<subseteq> set (t @ w @ mid)" by (rule set_mono_suffix)
        with 1(1) nd have "hd x2 \<noteq> 46" by (metis hd_in_set subsetD)
        with 1 have "hd v \<noteq> 46" by simp
        with v show ?thesis by (intro callback_no_match_hd[OF m'])
      next
        assume x2: "x2 = ?X"
        show ?thesis
        proof (rule ccontr)
          assume "re_match (callback_pattern U m') (v @ r) \<noteq> None"
          then obtain w' where w': "w' \<noteq> []" "\<forall>c \<in> set w'. is_word U c"
            and p: "prefix (cp m' @ w' @ cp '') =>'') (v @ r)"
            unfolding callback_match_iff by blast
          have vr: "v @ r = cp m @ (w @ mid @ R @ r)" using 1(3) x2 by simp
          from p have "prefix (cp m') (cp m @ (w @ mid @ R @ r))"
            unfolding vr by (metis append_prefixD)
          then have eq: "m' = m" by (rule methods_no_prefix[OF m m'])
          with mid have mid': "mid = cp '': any) =>''" by auto
          from p have "prefix (w' @ cp '') =>'') (w @ mid @ R @ r)"
            unfolding vr eq by simp
          then have "prefix (w' @ 41 # cp '' =>'') (w @ 58 # cp '' any) =>'' @ R @ r)"
            by (simp add: mid' cp_def)
          with w(2) w'(2) show False by (rule word_run_mismatch)
        qed
      qed
    qed
  qed
qed

lemma callback_match_exact:
  assumes "w \<noteq> []" and "\<forall>c \<in> set w. is_word U c"
  shows "re_match (callback_pattern U m) (cp m @ w @ cp '') =>'' @ r) = Some [cp m, w, cp '') =>'']"
proof -
  have t: "takeWhile (is_word U) (w @ cp '') =>'' @ r) = w"
    using assms(2) by (simp add: takeWhile_append2 cp_def is_word_def)
  show ?thesis
    using assms(1) by (simp add: callback_match t Let_def)
qed

lemma callback_match_Some:
  assumes "re_match (callback_pattern U m) s = Some ps"
  shows "\<exists>w. w \<noteq> [] \<and> (\<forall>c \<in> set w. is_word U c) \<and> ps = [cp m, w, cp '') =>'']"
proof -
  let ?w = "takeWhile (is_word U) (drop (length m) s)"
  from assms have "ps = [cp m, ?w, cp '') =>'']" "?w \<noteq> []"
    by (auto simp: callback_match Let_def split: if_splits)
  moreover have "\<forall>c \<in> set ?w. is_word U c" by (auto dest: set_takeWhileD)
  ultimately show ?thesis by blast
qed

lemma callback_match_context:
  assumes "re_match (callback_pattern U m) v = Some ps"
  shows "re_match (callback_pattern U m) (v @ r) = Some ps"
proof -
  from callback_match_Some[OF assms] obtain w where
    w: "w \<noteq> []" "\<forall>c \<in> set w. is_word U c" "ps = [cp m, w, cp '') =>'']" by blast
  from re_match_sound[OF assms] obtain v' where "v = concat ps @ v'" by blast
  then have "v @ r = cp m @ w @ cp '') =>'' @ (v' @ r)" using w(3) by simp
  then show ?thesis using callback_match_exact[OF w(1,2)] w(3) by simp
qed

lemma callback_match_inside:
  assumes "re_match (callback_pattern U m) (v @ r) = Some ps" and "prefix (concat ps) v"
  shows "re_match (callback_pattern U m) v = Some ps"
proof -
  from callback_match_Some[OF assms(1)] obtain w where
    w: "w \<noteq> []" "\<forall>c \<in> set w. is_word U c" "ps = [cp m, w, cp '') =>'']" by blast
  from assms(2) obtain v' where "v = concat ps @ v'" by (auto simp: prefix_def)
  then have "v = cp m @ w @ cp '') =>'' @ v'" using w(3) by simp
  then show ?thesis using callback_match_exact[OF w(1,2)] w(3) by simp
qed

lemma callback_re_sub_append:
  assumes m: "m \<in> set methods" and L: "46 \<notin> set L" "62 \<notin> set L"
  shows "re_sub (callback_pattern U m) f (a @ L @ 46 # z) =
     re_sub (callback_pattern U m) f a @ re_sub (callback_pattern U m) f (L @ 46 # z)"
proof (rule re_sub_append)
  show "re_match (callback_pattern U m) [] = None" by simp
next
  fix v ps
  assume v: "v \<noteq> []" and ps: "re_match (callback_pattern U m) (v @ L @ 46 # z) = Some ps"
  from re_match_sound[OF ps] obtain rest where "v @ (L @ 46 # z) = concat ps @ rest" by blast
  then have "\<exists>us. v = concat ps @ us \<and> us @ (L @ 46 # z) = rest \<or>
      v @ us = concat ps \<and> L @ 46 # z = us @ rest"
    by (simp only: append_eq_append_conv2)
  then obtain us where d: "v = concat ps @ us \<and> us @ (L @ 46 # z) = rest \<or>
      v @ us = concat ps \<and> L @ 46 # z = us @ rest" by blast
  have "prefix (concat ps) v"
  proof (cases "v @ us = concat ps \<and> L @ 46 # z = us @ rest \<and> us \<noteq> []")
    case True
    then have c: "concat ps = v @ us" and u: "us \<noteq> []" and "prefix us (L @ 46 # z)"
      by simp_all
    with callback_across[OF m ps c v u L, of z] show ?thesis by simp
  next
    case False
    with d have "v = concat ps @ us \<or> v = concat ps" by auto
    then show ?thesis by auto
  qed
  then show "prefix (concat ps) v \<and> re_match (callback_pattern U m) v = Some ps"
    using callback_match_inside[OF ps] by simp
next
  fix v
  assume "re_match (callback_pattern U m) (v @ L @ 46 # z) = None"
  then show "re_match (callback_pattern U m) v = None"
    using callback_match_context[of U m v _ "L @ 46 # z"] by (cases "re_match (callback_pattern U m) v") auto
qed

lemma nowhere_before_inside:
  "(\<And>u v. Z = u @ v \<Longrightarrow> v \<noteq> [] \<Longrightarrow> re_match p (v @ r) = None) \<Longrightarrow> nowhere_before p Z r"
proof (induction Z)
  case Nil
  then show ?case by simp
next
  case (Cons c Z)
  have "re_match p ((c # Z) @ r) = None" by (rule Cons(2)[of "[]"]) simp_all
  moreover have "nowhere_before p Z r"
  proof (rule Cons(1))
    show "re_match p (v @ r) = None" if "Z = u @ v" "v \<noteq> []" for u v
      by (rule Cons(2)[of "c # u"]) (use that in simp_all)
  qed
  ultimately show ?case by simp
qed

lemma callback_stage:
  assumes m: "m \<in> set methods" and m': "m' \<in> set methods"
    and L: "46 \<notin> set L" "62 \<notin> set L" and w: "w \<noteq> []" "\<forall>c \<in> set w. is_word U c"
    and mid: "mid = cp '') =>'' \<or> mid = cp '': any) =>''"
    and R: "\<And>u v r. R = u @ v \<Longrightarrow> v \<noteq> [] \<Longrightarrow> re_match (callback_pattern U m') (v @ r) = None"
  shows "re_sub (callback_pattern U m') (callback_template m') (a @ L @ cp m @ w @ mid @ R @ b) =
     re_sub (callback_pattern U m') (callback_template m') a @
     L @ cp m @ w @ (if m' = m then cp '': any) =>'' else mid) @ R @
     re_sub (callback_pattern U m') (callback_template m') b"
proof -
  let ?sub = "re_sub (callback_pattern U m') (callback_template m')"
  from methods_shape[OF m] obtain t where t: "cp m = 46 # t" by blast
  have "?sub (a @ L @ 46 # (t @ w @ mid @ R @ b)) = ?sub a @ ?sub (L @ 46 # (t @ w @ mid @ R @ b))"
    using m' L by (rule callback_re_sub_append)
  then have split: "?sub (a @ L @ cp m @ w @ mid @ R @ b) = ?sub a @ ?sub (L @ cp m @ w @ mid @ R @ b)"
    by (simp add: t)
  have Rb: "?sub (R @ b) = R @ ?sub b"
    by (rule re_sub_before, rule nowhere_before_inside, rule R)
  have rest: "?sub (L @ cp m @ w @ mid @ R @ b) =
      L @ cp m @ w @ (if m' = m then cp '': any) =>'' else mid) @ R @ ?sub b"
  proof (cases "m' = m \<and> mid = cp '') =>''")
    case True
    have "nowhere_before (callback_pattern U m') L (cp m @ w @ mid @ R @ b)"
    proof (rule nowhere_before_inside)
      fix u v assume "L = u @ v" "v \<noteq> []"
      then have "hd v \<in> set L" by (cases v) auto
      with L(1) have "hd v \<noteq> 46" by auto
      with m' \<open>v \<noteq> []\<close> show "re_match (callback_pattern U m') (v @ cp m @ w @ mid @ R @ b) = None"
        by (rule callback_no_match_hd)
    qed
    then have "?sub (L @ cp m @ w @ mid @ R @ b) = L @ ?sub (cp m @ w @ mid @ R @ b)"
      by (rule re_sub_before)
    moreover have "?sub (cp m @ w @ cp '') =>'' @ R @ b) = cp m @ w @ cp '': any) =>'' @ ?sub (R @ b)"
      using True re_sub_callback_hit[OF w, of m "R @ b"] by simp
    ultimately show ?thesis using True Rb by simp
  next
    case False
    with mid have mid': "mid = cp '') =>'' \<and> m' \<noteq> m \<or> mid = cp '': any) =>''" by auto
    have "nowhere_before (callback_pattern U m') (L @ cp m @ w @ mid @ R) b"
    proof (rule nowhere_before_inside)
      fix u v assume "L @ cp m @ w @ mid @ R = u @ v" "v \<noteq> []"
      with m m' L(1) w mid' R show "re_match (callback_pattern U m') (v @ b) = None"
        by (rule callback_inside)
    qed
    then have "?sub ((L @ cp m @ w @ mid @ R) @ b) = (L @ cp m @ w @ mid @ R) @ ?sub b"
      by (rule re_sub_before)
    moreover have "(if m' = m then cp '': any) =>'' else mid) = mid" using mid' by auto
    ultimately show ?thesis by simp
  qed
  show ?thesis unfolding split rest ..
qed

lemma foldl_callbacks_split:
  assumes m: "m \<in> set methods" and ms: "set ms \<subseteq> set methods"
    and L: "46 \<notin> set L" "62 \<notin> set L" and w: "w \<noteq> []" "\<forall>c \<in> set w. is_word U c"
    and R: "\<And>m' u v r. m' \<in> set methods \<Longrightarrow> R = u @ v \<Longrightarrow> v \<noteq> [] \<Longrightarrow>
        re_match (callback_pattern U m') (v @ r) = None"
  shows "mid = cp '') =>'' \<or> mid = cp '': any) =>'' \<Longrightarrow>
     foldl (\<lambda>content (pattern, replacement). re_sub pattern replacement content)
       (a @ L @ cp m @ w @ mid @ R @ b) (map (\<lambda>m. (callback_pattern U m, callback_template m)) ms) =
     foldl (\<lambda>content (pattern, replacement). re_sub pattern replacement content) a
       (map (\<lambda>m. (callback_pattern U m, callback_template m)) ms) @
     L @ cp m @ w @ (if m \<in> set ms then cp '': any) =>'' else mid) @ R @
     foldl (\<lambda>content (pattern, replacement). re_sub pattern replacement content) b
       (map (\<lambda>m. (callback_pattern U m, callback_template m)) ms)"
  using ms
proof (induction ms arbitrary: a b mid)
  case Nil
  then show ?case by simp
next
  case (Cons m' ms)
  have m': "m' \<in> set methods" and sub: "set ms \<subseteq> set methods" using Cons.prems(2) by simp_all
  let ?sub = "re_sub (callback_pattern U m') (callback_template m')"
  let ?mid = "if m' = m then cp '': any) =>'' else mid"
  have st: "?sub (a @ L @ cp m @ w @ mid @ R @ b) = ?sub a @ L @ cp m @ w @ ?mid @ R @ ?sub b"
    using m m' L w Cons.prems(1) R[OF m'] by (rule callback_stage)
  have mid': "?mid = cp '') =>'' \<or> ?mid = cp '': any) =>''" using Cons.prems(1) by auto
  have "(if m \<in> set ms then cp '': any) =>'' else ?mid) =
      (if m \<in> set (m' # ms) then cp '': any) =>'' else mid)" by auto
  with Cons.IH[OF mid' sub, of "?sub a" "?sub b"] show ?case
    by (simp only: list.map foldl_Cons prod.case st)
qed

lemma fix_implicit_any_params_split:
  assumes "m \<in> set methods" and "46 \<notin> set L" and "62 \<notin> set L"
    and "w \<noteq> []" and "\<forall>c \<in> set w. is_word U c"
    and "\<And>m' u v r. m' \<in> set methods \<Longrightarrow> R = u @ v \<Longrightarrow> v \<noteq> [] \<Longrightarrow>
        re_match (callback_pattern U m') (v @ r) = None"
  shows "fix_implicit_any_params U (a @ L @ cp m @ w @ cp '') =>'' @ R @ b) =
     fix_implicit_any_params U a @ L @ cp m @ w @ cp '': any) =>'' @ R @
     fix_implicit_any_params U b"
  unfolding fix_implicit_any_params_def patterns_def
  using foldl_callbacks_split[OF assms(1) subset_refl assms(2-6), where mid = "cp '') =>''"
      and a = a and b = b] assms(1)
  by simp

section \<open>Annotated callbacks\<close>

lemma methods_no_quote: "m \<in> set methods \<Longrightarrow> 39 \<notin> set (cp m) \<and> 34 \<notin> set (cp m)"
  by (auto simp: methods_def cp_def)

lemma throw_edits_no_quote:
  "throw_edits U xs ys \<Longrightarrow> 39 \<notin> set xs \<Longrightarrow> 34 \<notin> set xs \<Longrightarrow> ys = xs"
  by (induction rule: throw_edits.induct) auto

lemma apply_fixes_annotates_in_place:
  assumes m: "m \<in> set methods" and w: "w \<noteq> []" "\<forall>c \<in> set w. is_word U c"
    and L: "46 \<notin> set L" "62 \<notin> set L" "39 \<notin> set L" "34 \<notin> set L"
    and hdL: "L \<noteq> [] \<Longrightarrow> hd L \<notin> set (cp '' }, { status: '') \<and> hd L \<notin> set (cp '' })'') \<and>
        \<not> is_digit U (hd L)"
    and R: "39 \<notin> set R" "34 \<notin> set R"
    and lastR: "R \<noteq> [] \<Longrightarrow> last R \<notin> set (cp ''return NextResponse.json({ error: '')"
    and inside: "\<And>m' u v r. m' \<in> set methods \<Longrightarrow> R = u @ v \<Longrightarrow> v \<noteq> [] \<Longrightarrow>
        re_match (callback_pattern U m') (v @ r) = None"
  shows "\<exists>a b. throw_edits U pre a \<and> throw_edits U post b \<and>
     fix_check_admin_access U (pre @ (L @ cp m @ w @ cp '') =>'' @ R) @ post) =
       a @ (L @ cp m @ w @ cp '') =>'' @ R) @ b \<and>
     apply_fixes U (pre @ (L @ cp m @ w @ cp '') =>'' @ R) @ post) =
       fix_implicit_any_params U a @ (L @ cp m @ w @ cp '': any) =>'' @ R) @
       fix_implicit_any_params U b"
proof -
  let ?Z = "L @ cp m @ w @ cp '') =>'' @ R"
  from methods_shape[OF m] obtain x where x: "cp m = 46 # x" by blast
  have wq: "39 \<notin> set w" "34 \<notin> set w" using w(2) by (auto simp: is_word_def)
  have ne: "?Z \<noteq> []" using w(1) by simp
  have q: "39 \<notin> set ?Z" "34 \<notin> set ?Z"
    using L(3,4) R methods_no_quote[OF m] wq by (auto simp: cp_def)
  have lst: "last ?Z \<notin> set (cp ''return NextResponse.json({ error: '')"
  proof (cases "R = []")
    case True
    then show ?thesis by (simp add: cp_def)
  next
    case False
    with lastR show ?thesis by (simp add: cp_def)
  qed
  have hd: "hd ?Z \<notin> set (cp '' }, { status: '') \<and> hd ?Z \<notin> set (cp '' })'') \<and>
      \<not> is_digit U (hd ?Z)"
  proof (cases "L = []")
    case True
    then show ?thesis by (simp add: x) (simp add: cp_def is_digit_def)
  next
    case False
    with hdL show ?thesis by simp
  qed
  from hd have hd1: "hd ?Z \<notin> set (cp '' }, { status: '')" and hd2: "hd ?Z \<notin> set (cp '' })'')"
    and hd3: "\<not> is_digit U (hd ?Z)" by simp_all
  from fix_check_admin_access_split[OF ne q lst hd1 hd2 hd3, of pre post]
  obtain a b where s1: "fix_check_admin_access U (pre @ ?Z @ post) = a @ ?Z @ b"
    and e: "throw_edits U pre a" "throw_edits U post b" by blast
  have "fix_implicit_any_params U (a @ L @ cp m @ w @ cp '') =>'' @ R @ b) =
      fix_implicit_any_params U a @ L @ cp m @ w @ cp '': any) =>'' @ R @
      fix_implicit_any_params U b"
    using m L(1,2) w inside by (rule fix_implicit_any_params_split)
  then have "apply_fixes U (pre @ ?Z @ post) =
      fix_implicit_any_params U a @ (L @ cp m @ w @ cp '': any) =>'' @ R) @
      fix_implicit_any_params U b"
    using s1 by (simp add: apply_fixes_def)
  with s1 e show ?thesis by blast
qed

lemma run_tail_inside:
  assumes "m' \<in> set methods" and "cp '' x.run());'' = u @ v" and "v \<noteq> []"
  shows "re_match (callback_pattern U m') (v @ r) = None"
proof -
  have "suffix v (cp '' x.run());'')" using assms(2) by (simp add: suffix_def)
  then have "v \<in> set (suffixes (cp '' x.run());''))" by (simp add: in_set_suffixes)
  then have "hd v \<noteq> 46 \<or> v = [46, 114, 117, 110, 40, 41, 41, 59]"
    using assms(3) by (auto simp: cp_def)
  then show ?thesis
  proof
    assume "hd v \<noteq> 46"
    with assms(1,3) show ?thesis by (intro callback_no_match_hd)
  next
    assume "v = [46, 114, 117, 110, 40, 41, 41, 59]"
    with assms(1) show ?thesis
      by (auto simp: methods_def callback_match cp_def)
  qed
qed

text \<open>
  C5, as the claim states it, fails: a callback whose single parameter is written without
  parentheses, or without the space before the arrow, is passed to \<open>map\<close> and comes
  out without an annotation.
\<close>

theorem unparenthesized_callback_counterexample:
  "apply_fixes ascii_tables (cp ''xs.map(x => x.id)'') = cp ''xs.map(x => x.id)'' \<and>
   apply_fixes ascii_tables (cp ''xs.map((x)=> x.id)'') = cp ''xs.map((x)=> x.id)'' \<and>
   \<not> sublist (cp '': any'') (cp ''xs.map(x => x.id)'') \<and>
   \<not> sublist (cp '': any'') (cp ''xs.map((x)=> x.id)'')"
  by (simp add: apply_fixes_def eval_defs sublist_Cons_right)

text \<open>
  C5, amended. In a text \<open>pre @ items.forEach((x) => x.run()); @ post\<close> the fixes put
  \<open>items.forEach((x: any) => x.run());\<close> in the place of the callback: the output is
  \<open>fix_implicit_any_params a\<close>, the annotated callback and \<open>fix_implicit_any_params b\<close>,
  where \<open>fix_check_admin_access\<close> keeps the callback and makes \<open>a\<close> of the text before
  it and \<open>b\<close> of the text after it by rewriting response statements only. The same
  holds for each of the six methods and every non-empty run \<open>w\<close> of word characters:
  \<open>.method((w) =>\<close> comes out as \<open>.method((w: any) =>\<close> in its place. In the output of
  the fixes none of the six callback patterns matches any more.
\<close>

theorem callback_annotated_in_place:
  "(\<exists>a b. throw_edits U pre a \<and> throw_edits U post b \<and>
      fix_check_admin_access U (pre @ cp ''items.forEach((x) => x.run());'' @ post) =
        a @ cp ''items.forEach((x) => x.run());'' @ b \<and>
      apply_fixes U (pre @ cp ''items.forEach((x) => x.run());'' @ post) =
        fix_implicit_any_params U a @ cp ''items.forEach((x: any) => x.run());'' @
        fix_implicit_any_params U b) \<and>
   (m \<in> set methods \<and> w \<noteq> [] \<and> list_all (is_word U) w \<longrightarrow>
     (\<exists>a b. throw_edits U pre a \<and> throw_edits U post b \<and>
        fix_check_admin_access U (pre @ (cp m @ w @ cp '') =>'') @ post) =
          a @ (cp m @ w @ cp '') =>'') @ b \<and>
        apply_fixes U (pre @ (cp m @ w @ cp '') =>'') @ post) =
          fix_implicit_any_params U a @ (cp m @ w @ cp '': any) =>'') @
          fix_implicit_any_params U b)) \<and>
   list_all (\<lambda>m. nowhere (callback_pattern U m) (apply_fixes U t)) methods"
proof (intro conjI impI)
  have e0: "cp ''items.forEach((x) => x.run());'' =
      cp ''items'' @ cp ''.forEach(('' @ cp ''x'' @ cp '') =>'' @ cp '' x.run());''"
    by (simp add: cp_def)
  have e1: "cp ''items.forEach((x: any) => x.run());'' =
      cp ''items'' @ cp ''.forEach(('' @ cp ''x'' @ cp '': any) =>'' @ cp '' x.run());''"
    by (simp add: cp_def)
  have "\<exists>a b. throw_edits U pre a \<and> throw_edits U post b \<and>
     fix_check_admin_access U
       (pre @ (cp ''items'' @ cp ''.forEach(('' @ cp ''x'' @ cp '') =>'' @ cp '' x.run());'') @ post) =
       a @ (cp ''items'' @ cp ''.forEach(('' @ cp ''x'' @ cp '') =>'' @ cp '' x.run());'') @ b \<and>
     apply_fixes U
       (pre @ (cp ''items'' @ cp ''.forEach(('' @ cp ''x'' @ cp '') =>'' @ cp '' x.run());'') @ post) =
       fix_implicit_any_params U a @
       (cp ''items'' @ cp ''.forEach(('' @ cp ''x'' @ cp '': any) =>'' @ cp '' x.run());'') @
       fix_implicit_any_params U b"
  proof (rule apply_fixes_annotates_in_place)
    show "''.forEach(('' \<in> set methods" by (simp add: methods_def)
    show "re_match (callback_pattern U m') (v @ r) = None"
      if "m' \<in> set methods" "cp '' x.run());'' = u @ v" "v \<noteq> []" for m' u v r
      using that by (rule run_tail_inside)
  qed (simp_all add: cp_def is_word_def is_digit_def)
  then show "\<exists>a b. throw_edits U pre a \<and> throw_edits U post b \<and>
      fix_check_admin_access U (pre @ cp ''items.forEach((x) => x.run());'' @ post) =
        a @ cp ''items.forEach((x) => x.run());'' @ b \<and>
      apply_fixes U (pre @ cp ''items.forEach((x) => x.run());'' @ post) =
        fix_implicit_any_params U a @ cp ''items.forEach((x: any) => x.run());'' @
        fix_implicit_any_params U b"
    unfolding e0[symmetric] e1[symmetric] .
next
  assume a: "m \<in> set methods \<and> w \<noteq> [] \<and> list_all (is_word U) w"
  have "\<exists>a b. throw_edits U pre a \<and> throw_edits U post b \<and>
     fix_check_admin_access U (pre @ ([] @ cp m @ w @ cp '') =>'' @ []) @ post) =
       a @ ([] @ cp m @ w @ cp '') =>'' @ []) @ b \<and>
     apply_fixes U (pre @ ([] @ cp m @ w @ cp '') =>'' @ []) @ post) =
       fix_implicit_any_params U a @ ([] @ cp m @ w @ cp '': any) =>'' @ []) @
       fix_implicit_any_params U b"
    by (rule apply_fixes_annotates_in_place) (use a in \<open>simp_all add: list_all_iff\<close>)
  then show "\<exists>a b. throw_edits U pre a \<and> throw_edits U post b \<and>
        fix_check_admin_access U (pre @ (cp m @ w @ cp '') =>'') @ post) =
          a @ (cp m @ w @ cp '') =>'') @ b \<and>
        apply_fixes U (pre @ (cp m @ w @ cp '') =>'') @ post) =
          fix_implicit_any_params U a @ (cp m @ w @ cp '': any) =>'') @
          fix_implicit_any_params U b"
    by simp
next
  show "list_all (\<lambda>m. nowhere (callback_pattern U m) (apply_fixes U t)) methods"
    by (simp add: list_all_iff apply_fixes_def fix_implicit_any_params_nowhere)
qed

theorem callback_annotated_in_place_witness:
  "''.map(('' \<in> set methods \<and> cp ''id'' \<noteq> [] \<and> list_all (is_word ascii_tables) (cp ''id'') \<and>
   apply_fixes ascii_tables (cp ''ids'' @ (cp ''.map(('' @ cp ''id'' @ cp '') =>'') @ cp '' id + 1)'')
     = cp ''ids'' @ (cp ''.map(('' @ cp ''id'' @ cp '': any) =>'') @ cp '' id + 1)''"
proof -
  have h: "''.map(('' \<in> set methods \<and> cp ''id'' \<noteq> [] \<and> list_all (is_word ascii_tables) (cp ''id'')"
    by (simp add: methods_def cp_def is_word_def)
  from callback_annotated_in_place [of ascii_tables "cp ''ids''" "cp '' id + 1)''" "''.map((''" "cp ''id''"] h
  obtain a b where e: "throw_edits ascii_tables (cp ''ids'') a"
      "throw_edits ascii_tables (cp '' id + 1)'') b"
    and r: "apply_fixes ascii_tables
        (cp ''ids'' @ (cp ''.map(('' @ cp ''id'' @ cp '') =>'') @ cp '' id + 1)'') =
      fix_implicit_any_params ascii_tables a @ (cp ''.map(('' @ cp ''id'' @ cp '': any) =>'') @
      fix_implicit_any_params ascii_tables b"
    by blast
  have a: "a = cp ''ids''" using e(1) by (rule throw_edits_no_quote) (simp_all add: cp_def)
  have b: "b = cp '' id + 1)''" using e(2) by (rule throw_edits_no_quote) (simp_all add: cp_def)
  have "fix_implicit_any_params ascii_tables (cp ''ids'') = cp ''ids''"
    "fix_implicit_any_params ascii_tables (cp '' id + 1)'') = cp '' id + 1)''"
    by (simp_all add: eval_defs)
  with r h show ?thesis unfolding a b by simp
qed

end
